theory Spec2Isabelle
  imports Main "HOL-Library.Word"
begin

section \<open>The zeus queue: data model\<close>

text \<open>
  \<^verbatim>\<open>zeus::queue<T>\<close> (src/include/zeus/queue.hpp) is a bounded ring of
  \<^verbatim>\<open>zeus::slot<T>\<close> cells (src/include/zeus/slot.hpp). Every counter of the
  source is a \<^verbatim>\<open>std::size_t\<close>, modelled as a 64-bit word whose arithmetic wraps.
  The code is read twice. First each member function is a function of the queue state,
  the call of one thread that runs to its end with nothing in between; a call that waits
  forever has the result \<open>None\<close>. Then the same member functions are sequences of
  atomic steps, which two threads take in any order. In both readings every atomic load,
  store, fetch-add and compare-exchange acts on the one current state, and the memory
  orders play no part.
\<close>

type_synonym size_t = "64 word"

text \<open>
  What the C++ leaves undefined is a value of the model: a remainder or quotient by zero,
  an index outside the slot array, a read or a destructor call on storage that holds no
  live object. \<open>BadAlloc\<close> is the \<^verbatim>\<open>std::bad_alloc\<close> of the constructor.
\<close>

datatype error = DivisionByZero | OutOfBounds | DeadStorage | BadAlloc

text \<open>
  A slot: the atomic \<^verbatim>\<open>turn\<close> and the raw \<^verbatim>\<open>storage\<close>, which is
  \<open>Some v\<close> while a constructed \<^verbatim>\<open>T\<close> lives in it and \<open>None\<close> otherwise.
\<close>

record 'a slot =
  turn :: size_t
  storage :: "'a option"

record 'a queue =
  max_capacity :: size_t
  slots :: "'a slot list"
  head :: size_t
  tail :: size_t

subsection \<open>Slot operations (slot.hpp)\<close>

text \<open>The default member initialiser: \<^verbatim>\<open>turn = 0\<close>, storage not constructed.\<close>

abbreviation new_slot :: "'a slot" where
  "new_slot \<equiv> \<lparr>turn = 0, storage = None\<rparr>"

text \<open>\<^verbatim>\<open>construct\<close>: placement-new of a \<^verbatim>\<open>T\<close> into the storage.\<close>

definition construct :: "'a slot \<Rightarrow> 'a \<Rightarrow> 'a slot" where
  "construct s v = s\<lparr>storage := Some v\<rparr>"

text \<open>\<^verbatim>\<open>destroy\<close>: runs the destructor of the object in the storage.\<close>

definition destroy :: "'a slot \<Rightarrow> error + 'a slot" where
  "destroy s = (case storage s of
                  None \<Rightarrow> Inl DeadStorage
                | Some v \<Rightarrow> Inr (s\<lparr>storage := None\<rparr>))"

text \<open>\<^verbatim>\<open>move\<close>: an rvalue reference to the stored object; the slot is not changed.\<close>

definition move :: "'a slot \<Rightarrow> error + 'a" where
  "move s = (case storage s of None \<Rightarrow> Inl DeadStorage | Some v \<Rightarrow> Inr v)"

text \<open>\<^verbatim>\<open>~slot\<close>: \<^verbatim>\<open>if (turn % 2 != 0) destroy();\<close>\<close>

definition slot_dtor :: "'a slot \<Rightarrow> error + 'a slot" where
  "slot_dtor s = (if turn s mod 2 \<noteq> 0 then destroy s else Inr s)"

subsection \<open>Index helpers (queue.hpp, lines 188-196)\<close>

text \<open>\<^verbatim>\<open>get_idx(i) = i % max_capacity\<close>\<close>

definition get_idx :: "'a queue \<Rightarrow> size_t \<Rightarrow> error + size_t" where
  "get_idx q i = (if max_capacity q = 0 then Inl DivisionByZero
                  else Inr (i mod max_capacity q))"

text \<open>\<^verbatim>\<open>get_current_turn(i) = i / max_capacity\<close>\<close>

definition get_current_turn :: "'a queue \<Rightarrow> size_t \<Rightarrow> error + size_t" where
  "get_current_turn q i = (if max_capacity q = 0 then Inl DivisionByZero
                           else Inr (i div max_capacity q))"

text \<open>\<^verbatim>\<open>slots[i]\<close>: the array has \<open>length (slots q)\<close> elements.\<close>

definition slot_at :: "'a queue \<Rightarrow> size_t \<Rightarrow> error + 'a slot" where
  "slot_at q i = (if unat i < length (slots q) then Inr (slots q ! unat i)
                  else Inl OutOfBounds)"

subsection \<open>Construction (queue.hpp, lines 23-36)\<close>

text \<open>
  The loop of the constructor, \<^verbatim>\<open>for (i = 0; i < max_capacity; ++i) new (&slots[i]) slot<T>()\<close>,
  over an array of \<open>length sl\<close> slots.
\<close>

function init_slots :: "size_t \<Rightarrow> size_t \<Rightarrow> 'a slot list \<Rightarrow> error + 'a slot list" where
  "init_slots cap i sl =
     (if i < cap then
        (if unat i < length sl then init_slots cap (i + 1) (sl[unat i := new_slot])
         else Inl OutOfBounds)
      else Inr sl)"
  by pat_completeness auto
termination
proof (relation "measure (\<lambda>(cap, i, sl). unat cap - unat i)")
  fix cap i :: size_t and sl :: "'a slot list"
  assume "i < cap"
  then have lt: "unat i < unat cap"
    by (simp add: word_less_nat_alt)
  have "unat cap < 2 ^ 64"
    using unsigned_less [of cap, where ?'a = nat] by simp
  with lt have "unat (i + 1) = unat i + 1"
    by (simp add: unat_word_ariths)
  with lt show "((cap, i + 1, sl[unat i := new_slot]), cap, i, sl)
               \<in> measure (\<lambda>(cap, i, sl). unat cap - unat i)"
    by simp
qed simp

text \<open>
  The constructor. Two things come from outside the repository and are parameters:
  \<open>slot_align\<close> is \<^verbatim>\<open>alignof(zeus::slot<T>)\<close>, and \<open>alloc n\<close> is the outcome of
  \<^verbatim>\<open>std::make_unique<zeus::slot<T>[]>(n)\<close>: \<open>None\<close> when the allocation throws
  \<^verbatim>\<open>std::bad_alloc\<close>, else the address of \<open>n\<close> value-initialised slots. The element
  count \<^verbatim>\<open>max_capacity + 1\<close> is computed in \<^verbatim>\<open>size_t\<close>. The members
  \<^verbatim>\<open>head\<close> and \<^verbatim>\<open>tail\<close> have no initialiser; a default-constructed
  \<^verbatim>\<open>std::atomic\<close> holds zero in C++20, the standard the \<^verbatim>\<open>concept\<close>s of
  the source need.
\<close>

definition queue_ctor :: "nat \<Rightarrow> (nat \<Rightarrow> nat option) \<Rightarrow> size_t \<Rightarrow> error + 'a queue" where
  "queue_ctor slot_align alloc capacity =
     (case alloc (unat (capacity + 1)) of
        None \<Rightarrow> Inl BadAlloc
      | Some p \<Rightarrow>
          if p mod slot_align \<noteq> 0 then Inl BadAlloc
          else (case init_slots capacity 0 (replicate (unat (capacity + 1)) new_slot) of
                  Inl e \<Rightarrow> Inl e
                | Inr sl \<Rightarrow> Inr \<lparr>max_capacity = capacity, slots = sl, head = 0, tail = 0\<rparr>))"

subsection \<open>Busy waiting\<close>

text \<open>
  \<^verbatim>\<open>do { } while (expected != slot.turn.load(acquire));\<close>
  The loop as a function of the values its successive loads return: \<open>loads n\<close> is what
  the \<open>n\<close>-th load sees. The result is the number of the load that ended the loop, and
  \<open>None\<close> when no load ever does.
\<close>

partial_function (option) spin_until :: "size_t \<Rightarrow> (nat \<Rightarrow> size_t) \<Rightarrow> nat \<Rightarrow> nat option" where
  "spin_until expected loads n =
     (if expected \<noteq> loads n then spin_until expected loads (Suc n) else Some n)"

declare spin_until.simps [code]

subsection \<open>Blocking enqueue (queue.hpp, lines 49-63, 98-111)\<close>

text \<open>
  \<^verbatim>\<open>emplace\<close>. The ticket is taken by \<^verbatim>\<open>head.fetch_add(1)\<close> before anything
  else. In a single thread nothing changes the slot while the loop waits, so every load
  of the loop returns the turn the slot has in the current state. The result is \<open>None\<close>
  when the call never returns.
\<close>

definition emplace :: "'a queue \<Rightarrow> 'a \<Rightarrow> (error + 'a queue) option" where
  "emplace q v =
     (let current_head = head q; q1 = q\<lparr>head := head q + 1\<rparr> in
      case get_idx q1 current_head of Inl e \<Rightarrow> Some (Inl e) | Inr i \<Rightarrow>
      (case slot_at q1 i of Inl e \<Rightarrow> Some (Inl e) | Inr s \<Rightarrow>
      (case get_current_turn q1 current_head of Inl e \<Rightarrow> Some (Inl e) | Inr g \<Rightarrow>
      (case spin_until (g * 2) (\<lambda>_. turn s) 0 of None \<Rightarrow> None | Some _ \<Rightarrow>
        Some (Inr (q1\<lparr>slots := (slots q1)[unat i := (construct s v)\<lparr>turn := g * 2 + 1\<rparr>]\<rparr>))))))"

definition push :: "'a queue \<Rightarrow> 'a \<Rightarrow> (error + 'a queue) option" where
  "push q v = emplace q v"

subsection \<open>Non-blocking enqueue (queue.hpp, lines 67-96, 113-119)\<close>

text \<open>
  The \<^verbatim>\<open>while (true)\<close> loop of \<^verbatim>\<open>try_emplace\<close>, with the local variable
  \<^verbatim>\<open>current_head\<close> as an argument. \<^verbatim>\<open>compare_exchange_strong\<close> succeeds when
  \<open>head q\<close> still is \<open>current_head\<close>, and otherwise stores \<open>head q\<close> in
  \<^verbatim>\<open>current_head\<close>.
\<close>

function try_emplace_loop :: "'a queue \<Rightarrow> size_t \<Rightarrow> 'a \<Rightarrow> error + bool \<times> 'a queue" where
  "try_emplace_loop q current_head v =
     (case get_idx q current_head of Inl e \<Rightarrow> Inl e | Inr i \<Rightarrow>
      (case slot_at q i of Inl e \<Rightarrow> Inl e | Inr s \<Rightarrow>
      (case get_current_turn q current_head of Inl e \<Rightarrow> Inl e | Inr g \<Rightarrow>
      let loaded_turn = turn s; current_turn = g * 2 in
      if current_turn = loaded_turn then
        (if head q = current_head then
           Inr (True, q\<lparr>head := current_head + 1,
                        slots := (slots q)[unat i := (construct s v)\<lparr>turn := current_turn + 1\<rparr>]\<rparr>)
         else try_emplace_loop q (head q) v)
      else
        (let prev_head = current_head; current_head = head q in
         if current_head = prev_head then Inr (False, q)
         else try_emplace_loop q current_head v))))"
  by pat_completeness auto
termination
  by (relation "measure (\<lambda>(q, h, v). if h = head q then 0 else 1)") auto

definition try_emplace :: "'a queue \<Rightarrow> 'a \<Rightarrow> error + bool \<times> 'a queue" where
  "try_emplace q v = try_emplace_loop q (head q) v"

definition try_push :: "'a queue \<Rightarrow> 'a \<Rightarrow> error + bool \<times> 'a queue" where
  "try_push q v = try_emplace q v"

subsection \<open>Dequeue (queue.hpp, lines 123-173)\<close>

text \<open>\<^verbatim>\<open>pop\<close>: the mirror image of \<^verbatim>\<open>emplace\<close> on \<^verbatim>\<open>tail\<close>.\<close>

definition pop :: "'a queue \<Rightarrow> (error + 'a \<times> 'a queue) option" where
  "pop q =
     (let current_tail = tail q; q1 = q\<lparr>tail := tail q + 1\<rparr> in
      case get_idx q1 current_tail of Inl e \<Rightarrow> Some (Inl e) | Inr i \<Rightarrow>
      (case slot_at q1 i of Inl e \<Rightarrow> Some (Inl e) | Inr s \<Rightarrow>
      (case get_current_turn q1 current_tail of Inl e \<Rightarrow> Some (Inl e) | Inr g \<Rightarrow>
      (case spin_until (g * 2 + 1) (\<lambda>_. turn s) 0 of None \<Rightarrow> None | Some _ \<Rightarrow>
      (case move s of Inl e \<Rightarrow> Some (Inl e) | Inr rv \<Rightarrow>
      (case destroy s of Inl e \<Rightarrow> Some (Inl e) | Inr s' \<Rightarrow>
        Some (Inr (rv, q1\<lparr>slots := (slots q1)[unat i := s'\<lparr>turn := g * 2 + 2\<rparr>]\<rparr>))))))))"

text \<open>The \<^verbatim>\<open>while (true)\<close> loop of \<^verbatim>\<open>try_pop\<close>; \<open>None\<close> is \<^verbatim>\<open>std::nullopt\<close>.\<close>

function try_pop_loop :: "'a queue \<Rightarrow> size_t \<Rightarrow> error + 'a option \<times> 'a queue" where
  "try_pop_loop q current_tail =
     (case get_idx q current_tail of Inl e \<Rightarrow> Inl e | Inr i \<Rightarrow>
      (case slot_at q i of Inl e \<Rightarrow> Inl e | Inr s \<Rightarrow>
      (case get_current_turn q current_tail of Inl e \<Rightarrow> Inl e | Inr g \<Rightarrow>
      let loaded_turn = turn s; expected_turn = g * 2 + 1 in
      if expected_turn = loaded_turn then
        (if tail q = current_tail then
           (case move s of Inl e \<Rightarrow> Inl e | Inr rv \<Rightarrow>
           (case destroy s of Inl e \<Rightarrow> Inl e | Inr s' \<Rightarrow>
              Inr (Some rv, q\<lparr>tail := current_tail + 1,
                              slots := (slots q)[unat i := s'\<lparr>turn := g * 2 + 2\<rparr>]\<rparr>)))
         else try_pop_loop q (tail q))
      else
        (let prev_tail = current_tail; current_tail = tail q in
         if current_tail = prev_tail then Inr (None, q)
         else try_pop_loop q current_tail))))"
  by pat_completeness auto
termination
  by (relation "measure (\<lambda>(q, t). if t = tail q then 0 else 1)") auto

definition try_pop :: "'a queue \<Rightarrow> error + 'a option \<times> 'a queue" where
  "try_pop q = try_pop_loop q (tail q)"

subsection \<open>Introspection (queue.hpp, lines 178-185)\<close>

text \<open>\<^verbatim>\<open>size\<close>: the difference of the counters in \<^verbatim>\<open>size_t\<close>, cast to \<^verbatim>\<open>ptrdiff_t\<close>.\<close>

definition queue_size :: "'a queue \<Rightarrow> int" where
  "queue_size q = sint (head q - tail q)"

definition queue_empty :: "'a queue \<Rightarrow> bool" where
  "queue_empty q = (queue_size q \<le> 0)"

section \<open>Single-threaded executions\<close>

text \<open>
  The state a successful constructor call leaves behind: \<open>C + 1\<close> slots, all with turn 0
  and no object, and both counters at zero.
\<close>

definition fresh_queue :: "size_t \<Rightarrow> 'a queue" where
  "fresh_queue C =
     \<lparr>max_capacity = C, slots = replicate (Suc (unat C)) new_slot, head = 0, tail = 0\<rparr>"

text \<open>
  A client program of one thread is a list of calls; \<open>run\<close> makes them in order and
  collects what each call returned. A call that never returns ends the run with \<open>None\<close>,
  undefined behaviour ends it with the error.
\<close>

datatype 'a op = Emplace 'a | Push 'a | TryEmplace 'a | TryPush 'a | Pop | TryPop

datatype 'a result = Returned | Flag bool | Got 'a | GotOpt "'a option"

fun step :: "'a op \<Rightarrow> 'a queue \<Rightarrow> (error + 'a result \<times> 'a queue) option" where
  "step (Emplace v) q = map_option (map_sum id (Pair Returned)) (emplace q v)"
| "step (Push v) q = map_option (map_sum id (Pair Returned)) (push q v)"
| "step (TryEmplace v) q = Some (map_sum id (map_prod Flag id) (try_emplace q v))"
| "step (TryPush v) q = Some (map_sum id (map_prod Flag id) (try_push q v))"
| "step Pop q = map_option (map_sum id (map_prod Got id)) (pop q)"
| "step TryPop q = Some (map_sum id (map_prod GotOpt id) (try_pop q))"

fun run :: "'a op list \<Rightarrow> 'a queue \<Rightarrow> (error + 'a result list \<times> 'a queue) option" where
  "run [] q = Some (Inr ([], q))"
| "run (x # xs) q =
     (case step x q of
        None \<Rightarrow> None
      | Some (Inl e) \<Rightarrow> Some (Inl e)
      | Some (Inr (r, q')) \<Rightarrow>
          (case run xs q' of
             None \<Rightarrow> None
           | Some (Inl e) \<Rightarrow> Some (Inl e)
           | Some (Inr (rs, q'')) \<Rightarrow> Some (Inr (r # rs, q''))))"

text \<open>
  The element a call put into the queue, given what it returned, and the element a
  returned result took out of it; \<open>inserted\<close> and \<open>removed\<close> list them in call order.
\<close>

fun given :: "'a op \<Rightarrow> 'a result \<Rightarrow> 'a list" where
  "given (Emplace v) r = [v]"
| "given (Push v) r = [v]"
| "given (TryEmplace v) r = (if r = Flag True then [v] else [])"
| "given (TryPush v) r = (if r = Flag True then [v] else [])"
| "given Pop r = []"
| "given TryPop r = []"

fun taken :: "'a result \<Rightarrow> 'a list" where
  "taken (Got x) = [x]"
| "taken (GotOpt (Some x)) = [x]"
| "taken r = []"

definition inserted :: "'a op list \<Rightarrow> 'a result list \<Rightarrow> 'a list" where
  "inserted ops rs = concat (map2 given ops rs)"

definition removed :: "'a result list \<Rightarrow> 'a list" where
  "removed rs = concat (map taken rs)"

section \<open>Interleaved executions\<close>

text \<open>
  Two threads share one queue. A thread is its program (the calls it makes, in order), the
  program point it has reached inside the call it is making, and the results of the calls
  it has completed. A step of a thread is one access to the shared state, as the source
  makes them: one atomic load, store, fetch-add or compare-exchange of \<^verbatim>\<open>head\<close>,
  \<^verbatim>\<open>tail\<close> or a \<^verbatim>\<open>turn\<close>, or one \<^verbatim>\<open>construct\<close>, \<^verbatim>\<open>move\<close> or
  \<^verbatim>\<open>destroy\<close> of a slot's storage, with the local computation around it. A schedule
  is the order in which the threads take their steps. Every step acts on the one current
  state, so the interleaving is sequentially consistent; the memory orders of the source
  (\<^verbatim>\<open>acquire\<close>, \<^verbatim>\<open>release\<close>, the \<^verbatim>\<open>relaxed\<close> store of \<^verbatim>\<open>try_pop\<close>) are not
  modelled.
\<close>

text \<open>
  The program points, each with the local variables that are live there
  (\<^verbatim>\<open>current_head\<close> or \<^verbatim>\<open>current_tail\<close>, the argument, the value moved out):
  \<^item> \<open>Idle\<close>: between two calls;
  \<^item> \<open>Await_empty\<close>: in the loop of \<^verbatim>\<open>emplace\<close> (queue.hpp, lines 56-58), ticket taken;
  \<^item> \<open>Constructing\<close>: before \<^verbatim>\<open>slot.construct\<close> (line 60 or 81);
  \<^item> \<open>Publishing\<close>: before the store of the odd turn (line 61 or 82);
  \<^item> \<open>Probe_head\<close>: at the top of the loop of \<^verbatim>\<open>try_emplace\<close> (line 73);
  \<^item> \<open>Claim_head\<close>: before \<^verbatim>\<open>head.compare_exchange_strong\<close> (line 79);
  \<^item> \<open>Reread_head\<close>: before the second \<^verbatim>\<open>head.load\<close> (line 88);
  \<^item> \<open>Await_full\<close>: in the loop of \<^verbatim>\<open>pop\<close> (lines 130-132), ticket taken;
  \<^item> \<open>Moving\<close>: before \<^verbatim>\<open>T rv(slot.move())\<close> (line 134 or 155);
  \<^item> \<open>Destroying\<close>: before \<^verbatim>\<open>slot.destroy()\<close> (line 135 or 156);
  \<^item> \<open>Releasing\<close>: before the store of the next even turn (line 136 or 157);
  \<^item> \<open>Probe_tail\<close>, \<open>Claim_tail\<close>, \<open>Reread_tail\<close>: the same three points of
    \<^verbatim>\<open>try_pop\<close> (lines 148, 154, 165).
\<close>

datatype 'a pc =
    Idle
  | Await_empty size_t 'a
  | Constructing size_t 'a
  | Publishing size_t 'a
  | Probe_head size_t 'a
  | Claim_head size_t 'a
  | Reread_head size_t 'a
  | Await_full size_t
  | Moving size_t
  | Destroying size_t 'a
  | Releasing size_t 'a
  | Probe_tail size_t
  | Claim_tail size_t
  | Reread_tail size_t

record 'a thread =
  program :: "'a op list"
  pc :: "'a pc"
  results :: "'a result list"

text \<open>A thread that has not started, and the call a thread is making or will make next.\<close>

definition spawn :: "'a op list \<Rightarrow> 'a thread" where
  "spawn ops = \<lparr>program = ops, pc = Idle, results = []\<rparr>"

definition current :: "'a thread \<Rightarrow> 'a op option" where
  "current th = (if length (results th) < length (program th)
                 then Some (program th ! length (results th)) else None)"

text \<open>
  Returning from a call records its result. An enqueue that has stored its element returns
  nothing from \<^verbatim>\<open>emplace\<close>/\<^verbatim>\<open>push\<close> and \<^verbatim>\<open>true\<close> from
  \<^verbatim>\<open>try_emplace\<close>/\<^verbatim>\<open>try_push\<close>; a dequeue that has taken an element returns it,
  \<^verbatim>\<open>try_pop\<close> inside an optional.
\<close>

definition returns :: "'a thread \<Rightarrow> 'a result \<Rightarrow> 'a thread" where
  "returns th r = th\<lparr>pc := Idle, results := results th @ [r]\<rparr>"

fun accepted :: "'a op \<Rightarrow> 'a result" where
  "accepted (TryEmplace v) = Flag True"
| "accepted (TryPush v) = Flag True"
| "accepted x = Returned"

fun delivered :: "'a op \<Rightarrow> 'a \<Rightarrow> 'a result" where
  "delivered TryPop rv = GotOpt (Some rv)"
| "delivered x rv = Got rv"

text \<open>
  \<^verbatim>\<open>slots[get_idx(ticket)]\<close> and \<^verbatim>\<open>get_current_turn(ticket)\<close>: the index, the slot and
  the generation a ticket selects, or the undefined behaviour of computing them.
\<close>

definition target :: "'a queue \<Rightarrow> size_t \<Rightarrow> error + nat \<times> 'a slot \<times> size_t" where
  "target q ticket =
     (case get_idx q ticket of Inl e \<Rightarrow> Inl e | Inr i \<Rightarrow>
      (case slot_at q i of Inl e \<Rightarrow> Inl e | Inr s \<Rightarrow>
      (case get_current_turn q ticket of Inl e \<Rightarrow> Inl e | Inr g \<Rightarrow> Inr (unat i, s, g))))"

text \<open>
  The first step of each call: \<^verbatim>\<open>head.fetch_add(1)\<close> (line 52),
  \<^verbatim>\<open>head.load\<close> (line 70), \<^verbatim>\<open>tail.fetch_add(1)\<close> (line 126), \<^verbatim>\<open>tail.load\<close>
  (line 145). \<^verbatim>\<open>push\<close> and \<^verbatim>\<open>try_push\<close> call \<^verbatim>\<open>emplace\<close> and
  \<^verbatim>\<open>try_emplace\<close>.
\<close>

definition enter_emplace :: "'a \<Rightarrow> 'a queue \<Rightarrow> 'a thread \<Rightarrow> error + 'a queue \<times> 'a thread" where
  "enter_emplace v q th =
     (let current_head = head q; q1 = q\<lparr>head := head q + 1\<rparr> in
      case target q1 current_head of Inl e \<Rightarrow> Inl e
      | Inr _ \<Rightarrow> Inr (q1, th\<lparr>pc := Await_empty current_head v\<rparr>))"

definition enter_try_emplace :: "'a \<Rightarrow> 'a queue \<Rightarrow> 'a thread \<Rightarrow> error + 'a queue \<times> 'a thread" where
  "enter_try_emplace v q th = Inr (q, th\<lparr>pc := Probe_head (head q) v\<rparr>)"

definition enter_pop :: "'a queue \<Rightarrow> 'a thread \<Rightarrow> error + 'a queue \<times> 'a thread" where
  "enter_pop q th =
     (let current_tail = tail q; q1 = q\<lparr>tail := tail q + 1\<rparr> in
      case target q1 current_tail of Inl e \<Rightarrow> Inl e
      | Inr _ \<Rightarrow> Inr (q1, th\<lparr>pc := Await_full current_tail\<rparr>))"

definition enter_try_pop :: "'a queue \<Rightarrow> 'a thread \<Rightarrow> error + 'a queue \<times> 'a thread" where
  "enter_try_pop q th = Inr (q, th\<lparr>pc := Probe_tail (tail q)\<rparr>)"

fun enter :: "'a op \<Rightarrow> 'a queue \<Rightarrow> 'a thread \<Rightarrow> error + 'a queue \<times> 'a thread" where
  "enter (Emplace v) q th = enter_emplace v q th"
| "enter (Push v) q th = enter_emplace v q th"
| "enter (TryEmplace v) q th = enter_try_emplace v q th"
| "enter (TryPush v) q th = enter_try_emplace v q th"
| "enter Pop q th = enter_pop q th"
| "enter TryPop q th = enter_try_pop q th"

text \<open>
  The step a thread takes at each program point, in the call \<open>x\<close>. A load of the turn
  that does not find the awaited value leaves a blocking call where it is; a failed
  compare-exchange stores the counter it found in \<^verbatim>\<open>current_head\<close> (or
  \<^verbatim>\<open>current_tail\<close>) and goes round the loop.
\<close>

fun at_pc :: "'a pc \<Rightarrow> 'a op \<Rightarrow> 'a queue \<Rightarrow> 'a thread \<Rightarrow> error + 'a queue \<times> 'a thread" where
  "at_pc Idle x q th = enter x q th"
| "at_pc (Await_empty h v) x q th =
     (case target q h of Inl e \<Rightarrow> Inl e | Inr (i, s, g) \<Rightarrow>
        Inr (q, th\<lparr>pc := if g * 2 \<noteq> turn s then Await_empty h v else Constructing h v\<rparr>))"
| "at_pc (Constructing h v) x q th =
     (case target q h of Inl e \<Rightarrow> Inl e | Inr (i, s, g) \<Rightarrow>
        Inr (q\<lparr>slots := (slots q)[i := construct s v]\<rparr>, th\<lparr>pc := Publishing h v\<rparr>))"
| "at_pc (Publishing h v) x q th =
     (case target q h of Inl e \<Rightarrow> Inl e | Inr (i, s, g) \<Rightarrow>
        Inr (q\<lparr>slots := (slots q)[i := s\<lparr>turn := g * 2 + 1\<rparr>]\<rparr>, returns th (accepted x)))"
| "at_pc (Probe_head h v) x q th =
     (case target q h of Inl e \<Rightarrow> Inl e | Inr (i, s, g) \<Rightarrow>
        Inr (q, th\<lparr>pc := if g * 2 = turn s then Claim_head h v else Reread_head h v\<rparr>))"
| "at_pc (Claim_head h v) x q th =
     (if head q = h then Inr (q\<lparr>head := h + 1\<rparr>, th\<lparr>pc := Constructing h v\<rparr>)
      else Inr (q, th\<lparr>pc := Probe_head (head q) v\<rparr>))"
| "at_pc (Reread_head h v) x q th =
     (if head q = h then Inr (q, returns th (Flag False))
      else Inr (q, th\<lparr>pc := Probe_head (head q) v\<rparr>))"
| "at_pc (Await_full t) x q th =
     (case target q t of Inl e \<Rightarrow> Inl e | Inr (i, s, g) \<Rightarrow>
        Inr (q, th\<lparr>pc := if g * 2 + 1 \<noteq> turn s then Await_full t else Moving t\<rparr>))"
| "at_pc (Moving t) x q th =
     (case target q t of Inl e \<Rightarrow> Inl e | Inr (i, s, g) \<Rightarrow>
      (case move s of Inl e \<Rightarrow> Inl e | Inr rv \<Rightarrow> Inr (q, th\<lparr>pc := Destroying t rv\<rparr>)))"
| "at_pc (Destroying t rv) x q th =
     (case target q t of Inl e \<Rightarrow> Inl e | Inr (i, s, g) \<Rightarrow>
      (case destroy s of Inl e \<Rightarrow> Inl e | Inr s' \<Rightarrow>
         Inr (q\<lparr>slots := (slots q)[i := s']\<rparr>, th\<lparr>pc := Releasing t rv\<rparr>)))"
| "at_pc (Releasing t rv) x q th =
     (case target q t of Inl e \<Rightarrow> Inl e | Inr (i, s, g) \<Rightarrow>
        Inr (q\<lparr>slots := (slots q)[i := s\<lparr>turn := g * 2 + 2\<rparr>]\<rparr>, returns th (delivered x rv)))"
| "at_pc (Probe_tail t) x q th =
     (case target q t of Inl e \<Rightarrow> Inl e | Inr (i, s, g) \<Rightarrow>
        Inr (q, th\<lparr>pc := if g * 2 + 1 = turn s then Claim_tail t else Reread_tail t\<rparr>))"
| "at_pc (Claim_tail t) x q th =
     (if tail q = t then Inr (q\<lparr>tail := t + 1\<rparr>, th\<lparr>pc := Moving t\<rparr>)
      else Inr (q, th\<lparr>pc := Probe_tail (tail q)\<rparr>))"
| "at_pc (Reread_tail t) x q th =
     (if tail q = t then Inr (q, returns th (GotOpt None))
      else Inr (q, th\<lparr>pc := Probe_tail (tail q)\<rparr>))"

text \<open>A thread whose program is over has no step left: scheduling it changes nothing.\<close>

definition thread_step :: "'a queue \<Rightarrow> 'a thread \<Rightarrow> error + 'a queue \<times> 'a thread" where
  "thread_step q th = (case current th of None \<Rightarrow> Inr (q, th) | Some x \<Rightarrow> at_pc (pc th) x q th)"

text \<open>
  The system of two threads, and its execution along a schedule; undefined behaviour
  ends it with the error.
\<close>

datatype tid = T1 | T2

fun sys_step :: "tid \<Rightarrow> 'a queue \<times> 'a thread \<times> 'a thread
                   \<Rightarrow> error + 'a queue \<times> 'a thread \<times> 'a thread" where
  "sys_step T1 (q, a, b) =
     (case thread_step q a of Inl e \<Rightarrow> Inl e | Inr (q', a') \<Rightarrow> Inr (q', a', b))"
| "sys_step T2 (q, a, b) =
     (case thread_step q b of Inl e \<Rightarrow> Inl e | Inr (q', b') \<Rightarrow> Inr (q', a, b'))"

fun exec :: "tid list \<Rightarrow> 'a queue \<times> 'a thread \<times> 'a thread
               \<Rightarrow> error + 'a queue \<times> 'a thread \<times> 'a thread" where
  "exec [] s = Inr s"
| "exec (i # sched) s = (case sys_step i s of Inl e \<Rightarrow> Inl e | Inr s' \<Rightarrow> exec sched s')"





section \<open>Invariants\<close>

text \<open>The capacity is not zero and the array has the extra slot.\<close>

definition in_range :: "'a queue \<Rightarrow> bool" where
  "in_range q \<longleftrightarrow> max_capacity q \<noteq> 0 \<and> unat (max_capacity q) < length (slots q)"

text \<open>The parity of the turn is the tag of the storage.\<close>

definition slot_ok :: "'a slot \<Rightarrow> bool" where
  "slot_ok s \<longleftrightarrow> (storage s \<noteq> None) = odd (turn s)"

definition queue_ok :: "'a queue \<Rightarrow> bool" where
  "queue_ok q \<longleftrightarrow> list_all slot_ok (slots q)"

text \<open>
  The slot of the \<open>k\<close>-th element still in the queue, and the invariant that ties the
  state to the list \<open>pending\<close> of those elements, oldest first: their slots are pairwise
  different, each has an odd turn and holds its element, and every other slot below the
  capacity has an even turn and holds nothing. It speaks of parities only, so it
  survives the wrap-around of the counters.
\<close>

definition ring_idx :: "'a queue \<Rightarrow> nat \<Rightarrow> nat" where
  "ring_idx q k = unat ((tail q + of_nat k) mod max_capacity q)"

definition fifo_inv :: "'a queue \<Rightarrow> 'a list \<Rightarrow> bool" where
  "fifo_inv q pending \<longleftrightarrow>
     in_range q \<and>
     head q = tail q + of_nat (length pending) \<and>
     inj_on (ring_idx q) {..<length pending} \<and>
     (\<forall>k<length pending. odd (turn (slots q ! ring_idx q k)) \<and>
                          storage (slots q ! ring_idx q k) = Some (pending ! k)) \<and>
     (\<forall>j<unat (max_capacity q). j \<notin> ring_idx q ` {..<length pending} \<longrightarrow>
          even (turn (slots q ! j)) \<and> storage (slots q ! j) = None)"

text \<open>
  \<open>tickets_below c j x\<close> counts the tickets below \<open>x\<close> that select slot \<open>j\<close> of
  \<open>c\<close>. With \<open>H\<close> tickets handed out by \<^verbatim>\<open>head\<close> and \<open>T\<close> by \<^verbatim>\<open>tail\<close>, slot \<open>j\<close>
  has been written \<open>tickets_below c j H\<close> times and read \<open>tickets_below c j T\<close> times,
  and each of these raised its turn by one.
\<close>

definition tickets_below :: "nat \<Rightarrow> nat \<Rightarrow> nat \<Rightarrow> nat" where
  "tickets_below c j x = (x + (c - 1 - j)) div c"

definition counted_inv :: "'a queue \<Rightarrow> nat \<Rightarrow> nat \<Rightarrow> bool" where
  "counted_inv q H T \<longleftrightarrow>
     in_range q \<and> head q = of_nat H \<and> tail q = of_nat T \<and>
     T \<le> H \<and> H \<le> T + unat (max_capacity q) \<and>
     (\<forall>j<unat (max_capacity q).
        turn (slots q ! j) =
          of_nat (tickets_below (unat (max_capacity q)) j H +
                  tickets_below (unat (max_capacity q)) j T))"


text \<open>
  The ring: the elements \<open>xs\<close> still to be taken lie in the slots of the tickets
  \<open>r\<close>, \<open>r + 1\<close>, ... up to the next ticket to write, \<open>w\<close>. These slots are pairwise
  different, have an odd turn and hold their elements; every other slot below the capacity
  has an even turn, except a slot in \<open>st\<close>, whose element is gone and whose turn is
  about to be advanced. Like \<open>fifo_inv\<close> it speaks of parities only.
\<close>

definition pos :: "size_t \<Rightarrow> size_t \<Rightarrow> nat \<Rightarrow> nat" where
  "pos C r k = unat ((r + of_nat k) mod C)"

definition ring_core :: "size_t \<Rightarrow> 'a slot list \<Rightarrow> size_t \<Rightarrow> size_t \<Rightarrow> 'a list \<Rightarrow> nat set \<Rightarrow> bool" where
  "ring_core C sl w r xs st \<longleftrightarrow>
     w = r + of_nat (length xs) \<and>
     inj_on (pos C r) {..<length xs} \<and>
     (\<forall>k<length xs. odd (turn (sl ! pos C r k)) \<and> storage (sl ! pos C r k) = Some (xs ! k)) \<and>
     (\<forall>j<unat C. j \<notin> pos C r ` {..<length xs} \<longrightarrow> even (turn (sl ! j)) \<or> j \<in> st)"

text \<open>
  What the producer knows at each of its program points: the ticket it holds is one less
  than \<^verbatim>\<open>head\<close>, a counter it has only read is \<^verbatim>\<open>head\<close> itself, and the slot it is
  about to write or has written is at an even turn. The same for the consumer, with
  \<^verbatim>\<open>tail\<close> and an odd turn.
\<close>

fun producer_at :: "'a queue \<Rightarrow> 'a pc \<Rightarrow> bool" where
  "producer_at q Idle = True"
| "producer_at q (Await_empty h v) = (head q = h + 1)"
| "producer_at q (Constructing h v) =
     (head q = h + 1 \<and> even (turn (slots q ! unat (h mod max_capacity q))))"
| "producer_at q (Publishing h v) =
     (head q = h + 1 \<and> even (turn (slots q ! unat (h mod max_capacity q))) \<and>
      storage (slots q ! unat (h mod max_capacity q)) = Some v)"
| "producer_at q (Probe_head h v) = (head q = h)"
| "producer_at q (Claim_head h v) =
     (head q = h \<and> even (turn (slots q ! unat (h mod max_capacity q))))"
| "producer_at q (Reread_head h v) = (head q = h)"
| "producer_at q a = False"

fun consumer_at :: "'a queue \<Rightarrow> 'a pc \<Rightarrow> bool" where
  "consumer_at q Idle = True"
| "consumer_at q (Await_full t) = (tail q = t + 1)"
| "consumer_at q (Moving t) =
     (tail q = t + 1 \<and> odd (turn (slots q ! unat (t mod max_capacity q))))"
| "consumer_at q (Destroying t rv) =
     (tail q = t + 1 \<and> odd (turn (slots q ! unat (t mod max_capacity q))) \<and>
      storage (slots q ! unat (t mod max_capacity q)) = Some rv)"
| "consumer_at q (Releasing t rv) =
     (tail q = t + 1 \<and> odd (turn (slots q ! unat (t mod max_capacity q))) \<and>
      storage (slots q ! unat (t mod max_capacity q)) = None)"
| "consumer_at q (Probe_tail t) = (tail q = t)"
| "consumer_at q (Claim_tail t) =
     (tail q = t \<and> odd (turn (slots q ! unat (t mod max_capacity q))))"
| "consumer_at q (Reread_tail t) = (tail q = t)"
| "consumer_at q b = False"

text \<open>
  The next ticket to write and the next ticket to read: the one a call in flight holds,
  else the counter. A dequeue that has destroyed the element has read its ticket; the
  element it holds is not among the pending ones any more, and its slot is the stale one.
\<close>

fun write_ticket :: "'a queue \<Rightarrow> 'a pc \<Rightarrow> size_t" where
  "write_ticket q (Await_empty h v) = h"
| "write_ticket q (Constructing h v) = h"
| "write_ticket q (Publishing h v) = h"
| "write_ticket q a = head q"

fun read_ticket :: "'a queue \<Rightarrow> 'a pc \<Rightarrow> size_t" where
  "read_ticket q (Await_full t) = t"
| "read_ticket q (Moving t) = t"
| "read_ticket q (Destroying t rv) = t"
| "read_ticket q b = tail q"

fun stale :: "'a queue \<Rightarrow> 'a pc \<Rightarrow> nat set" where
  "stale q (Releasing t rv) = {unat (t mod max_capacity q)}"
| "stale q b = {}"




section \<open>Compile-time constraints on the element type\<close>

text \<open>
  What the concepts and requires-clauses of the source ask of the element type
  \<^verbatim>\<open>T\<close> are the standard library's \<^verbatim>\<open>is_nothrow_...\<close> traits. A type enters
  the model as the values of the traits the source mentions;
  \<open>nothrow_rvalue_constructible\<close> is \<^verbatim>\<open>is_nothrow_constructible<T, T&&>\<close>, the
  construction that \<^verbatim>\<open>T rv(slot.move())\<close> performs.
\<close>

record traits =
  nothrow_default_constructible :: bool
  nothrow_copy_constructible :: bool
  nothrow_rvalue_constructible :: bool
  nothrow_copy_assignable :: bool
  nothrow_move_assignable :: bool
  nothrow_destructible :: bool

text \<open>\<^verbatim>\<open>concept regular_type\<close> (queue.hpp, lines 13-16), the constraint of \<^verbatim>\<open>queue<T>\<close>.\<close>

definition regular_type :: "traits \<Rightarrow> bool" where
  "regular_type t \<longleftrightarrow>
     (nothrow_copy_assignable t \<or> nothrow_move_assignable t) \<and> nothrow_destructible t"

text \<open>
  \<^verbatim>\<open>concept arg_regular_type\<close> (slot.hpp, lines 14-16) as \<^verbatim>\<open>slot<T>\<close> uses it, with
  an empty argument pack.
\<close>

definition arg_regular_type :: "traits \<Rightarrow> bool" where
  "arg_regular_type t \<longleftrightarrow> nothrow_default_constructible t \<and> nothrow_destructible t"

text \<open>
  What a call of \<^verbatim>\<open>pop\<close> and of \<^verbatim>\<open>try_pop\<close> needs to compile: the constraints of
  the two class templates and the member's own requires-clause. \<^verbatim>\<open>pop\<close> has one
  (queue.hpp, line 124), \<^verbatim>\<open>try_pop\<close> has none (line 144).
\<close>

definition pop_requires :: "traits \<Rightarrow> bool" where
  "pop_requires t \<longleftrightarrow> regular_type t \<and> arg_regular_type t \<and> nothrow_copy_constructible t"

definition try_pop_requires :: "traits \<Rightarrow> bool" where
  "try_pop_requires t \<longleftrightarrow> regular_type t \<and> arg_regular_type t"

text \<open>
  The element operations of a dequeue, \<^verbatim>\<open>T rv = slot.move()\<close> and
  \<^verbatim>\<open>slot.destroy()\<close>, cannot throw.
\<close>

definition dequeue_cannot_throw :: "traits \<Rightarrow> bool" where
  "dequeue_cannot_throw t \<longleftrightarrow> nothrow_rvalue_constructible t \<and> nothrow_destructible t"

section \<open>Auxiliary facts\<close>

subsection \<open>The wait loop\<close>

lemma spin_until_hit: "loads n = expected \<Longrightarrow> spin_until expected loads n = Some n"
  by (subst spin_until.simps) simp

lemma spin_until_Some:
  "spin_until expected loads n = Some m \<Longrightarrow> n \<le> m \<and> loads m = expected"
  by (erule spin_until.raw_induct [rotated 1, where P = "\<lambda>e l n m. n \<le> m \<and> l m = e"])
    (fastforce split: if_splits dest: Suc_leD)

lemma spin_until_reaches:
  "loads (n + k) = expected \<Longrightarrow> \<exists>m. spin_until expected loads n = Some m"
proof (induction k arbitrary: n)
  case 0
  then show ?case by (simp add: spin_until_hit)
next
  case (Suc k)
  show ?case
  proof (cases "loads n = expected")
    case True
    then show ?thesis by (simp add: spin_until_hit)
  next
    case False
    from Suc.prems have "loads (Suc n + k) = expected" by simp
    then obtain m where "spin_until expected loads (Suc n) = Some m"
      using Suc.IH by blast
    with False show ?thesis
      by (subst spin_until.simps) auto
  qed
qed

lemma spin_until_const:
  "spin_until expected (\<lambda>_. t) n = (if expected = t then Some n else None)"
proof (cases "expected = t")
  case True
  then show ?thesis by (simp add: spin_until_hit)
next
  case False
  have "spin_until expected (\<lambda>_. t) n = None"
  proof (cases "spin_until expected (\<lambda>_. t) n")
    case (Some m)
    with False show ?thesis using spin_until_Some [of expected "\<lambda>_. t" n m] by simp
  qed simp
  with False show ?thesis by simp
qed

lemma spin_until_terminates_iff:
  "(\<exists>m. spin_until e loads n = Some m) \<longleftrightarrow> (\<exists>m\<ge>n. loads m = e)"
proof
  assume "\<exists>m. spin_until e loads n = Some m"
  then show "\<exists>m\<ge>n. loads m = e"
    by (auto dest: spin_until_Some)
next
  assume "\<exists>m\<ge>n. loads m = e"
  then obtain m where "n \<le> m" "loads m = e" by blast
  then have "loads (n + (m - n)) = e" by simp
  then show "\<exists>m. spin_until e loads n = Some m"
    by (rule spin_until_reaches)
qed

lemma spin_until_forever_iff:
  "spin_until e loads n = None \<longleftrightarrow> (\<forall>m\<ge>n. loads m \<noteq> e)"
  using spin_until_terminates_iff [of e loads n] by auto

subsection \<open>The operations in closed form\<close>

text \<open>
  In one thread each operation is a case distinction on the capacity, the bounds of the
  array and the turn of the one slot its ticket selects.
\<close>

lemma slot_overwrite [simp]:
  "(s :: 'a slot)\<lparr>storage := a, turn := b\<rparr> = \<lparr>turn = b, storage = a\<rparr>"
  "(s :: 'a slot)\<lparr>turn := b, storage := a\<rparr> = \<lparr>turn = b, storage = a\<rparr>"
  by (cases s; simp)+

lemma idx_lt: "max_capacity q \<noteq> 0 \<Longrightarrow> unat (i mod max_capacity q) < unat (max_capacity q)"
  by (simp add: unat_mod unat_gt_0)

lemma emplace_unfold:
  "emplace q v =
    (if max_capacity q = 0 then Some (Inl DivisionByZero)
     else let i = unat (head q mod max_capacity q); g = head q div max_capacity q in
       if length (slots q) \<le> i then Some (Inl OutOfBounds)
       else if turn (slots q ! i) = g * 2
       then Some (Inr (q\<lparr>head := head q + 1,
                         slots := (slots q)[i := \<lparr>turn = g * 2 + 1, storage = Some v\<rparr>]\<rparr>))
       else None)"
  by (simp add: emplace_def get_idx_def slot_at_def get_current_turn_def
      spin_until_const construct_def Let_def)

lemma try_emplace_unfold:
  "try_emplace q v =
    (if max_capacity q = 0 then Inl DivisionByZero
     else let i = unat (head q mod max_capacity q); g = head q div max_capacity q in
       if length (slots q) \<le> i then Inl OutOfBounds
       else if turn (slots q ! i) = g * 2
       then Inr (True, q\<lparr>head := head q + 1,
                       slots := (slots q)[i := \<lparr>turn = g * 2 + 1, storage = Some v\<rparr>]\<rparr>)
       else Inr (False, q))"
  by (simp add: try_emplace_def get_idx_def slot_at_def get_current_turn_def
      construct_def Let_def)

lemma pop_unfold:
  "pop q =
    (if max_capacity q = 0 then Some (Inl DivisionByZero)
     else let i = unat (tail q mod max_capacity q); g = tail q div max_capacity q in
       if length (slots q) \<le> i then Some (Inl OutOfBounds)
       else if turn (slots q ! i) = g * 2 + 1
       then (case storage (slots q ! i) of
               None \<Rightarrow> Some (Inl DeadStorage)
             | Some x \<Rightarrow> Some (Inr (x, q\<lparr>tail := tail q + 1,
                         slots := (slots q)[i := \<lparr>turn = g * 2 + 2, storage = None\<rparr>]\<rparr>)))
       else None)"
  by (simp add: pop_def get_idx_def slot_at_def get_current_turn_def
      spin_until_const move_def destroy_def Let_def split: option.splits)

lemma try_pop_unfold:
  "try_pop q =
    (if max_capacity q = 0 then Inl DivisionByZero
     else let i = unat (tail q mod max_capacity q); g = tail q div max_capacity q in
       if length (slots q) \<le> i then Inl OutOfBounds
       else if turn (slots q ! i) = g * 2 + 1
       then (case storage (slots q ! i) of
               None \<Rightarrow> Inl DeadStorage
             | Some x \<Rightarrow> Inr (Some x, q\<lparr>tail := tail q + 1,
                         slots := (slots q)[i := \<lparr>turn = g * 2 + 2, storage = None\<rparr>]\<rparr>))
       else Inr (None, q))"
  by (simp add: try_pop_def get_idx_def slot_at_def get_current_turn_def
      move_def destroy_def Let_def split: option.splits)

lemma try_pop_loop_stale:
  "max_capacity q \<noteq> 0 \<Longrightarrow> unat (ct mod max_capacity q) < length (slots q) \<Longrightarrow> tail q \<noteq> ct \<Longrightarrow>
     try_pop_loop q ct = try_pop_loop q (tail q)"
  by (subst try_pop_loop.simps)
    (simp add: get_idx_def slot_at_def get_current_turn_def Let_def del: try_pop_loop.simps)

lemma emplace_eq:
  assumes "in_range q"
  shows "emplace q v =
    (let i = unat (head q mod max_capacity q); g = head q div max_capacity q in
     if turn (slots q ! i) = g * 2
     then Some (Inr (q\<lparr>head := head q + 1,
                       slots := (slots q)[i := \<lparr>turn = g * 2 + 1, storage = Some v\<rparr>]\<rparr>))
     else None)"
  using assms idx_lt [of q "head q"]
  by (simp add: emplace_def in_range_def get_idx_def slot_at_def get_current_turn_def
      spin_until_const construct_def Let_def)

lemma try_emplace_eq:
  assumes "in_range q"
  shows "try_emplace q v =
    (let i = unat (head q mod max_capacity q); g = head q div max_capacity q in
     if turn (slots q ! i) = g * 2
     then Inr (True, q\<lparr>head := head q + 1,
                       slots := (slots q)[i := \<lparr>turn = g * 2 + 1, storage = Some v\<rparr>]\<rparr>)
     else Inr (False, q))"
  using assms idx_lt [of q "head q"]
  by (simp add: try_emplace_def in_range_def get_idx_def slot_at_def get_current_turn_def
      construct_def Let_def)

lemma pop_eq:
  assumes "in_range q"
  shows "pop q =
    (let i = unat (tail q mod max_capacity q); g = tail q div max_capacity q in
     if turn (slots q ! i) = g * 2 + 1
     then (case storage (slots q ! i) of
             None \<Rightarrow> Some (Inl DeadStorage)
           | Some x \<Rightarrow> Some (Inr (x, q\<lparr>tail := tail q + 1,
                       slots := (slots q)[i := \<lparr>turn = g * 2 + 2, storage = None\<rparr>]\<rparr>)))
     else None)"
  using assms idx_lt [of q "tail q"]
  by (simp add: pop_def in_range_def get_idx_def slot_at_def get_current_turn_def
      spin_until_const move_def destroy_def Let_def split: option.splits)

lemma try_pop_eq:
  assumes "in_range q"
  shows "try_pop q =
    (let i = unat (tail q mod max_capacity q); g = tail q div max_capacity q in
     if turn (slots q ! i) = g * 2 + 1
     then (case storage (slots q ! i) of
             None \<Rightarrow> Inl DeadStorage
           | Some x \<Rightarrow> Inr (Some x, q\<lparr>tail := tail q + 1,
                       slots := (slots q)[i := \<lparr>turn = g * 2 + 2, storage = None\<rparr>]\<rparr>))
     else Inr (None, q))"
  using assms idx_lt [of q "tail q"]
  by (simp add: try_pop_def in_range_def get_idx_def slot_at_def get_current_turn_def
      move_def destroy_def Let_def split: option.splits)

lemma dequeue_Inr:
  assumes "pop q = Some (Inr (x, q')) \<or> try_pop q = Inr (Some x, q')"
  shows "max_capacity q \<noteq> 0"
    and "unat (tail q mod max_capacity q) < length (slots q)"
    and "turn (slots q ! unat (tail q mod max_capacity q)) = tail q div max_capacity q * 2 + 1"
    and "storage (slots q ! unat (tail q mod max_capacity q)) = Some x"
    and "q' = q\<lparr>tail := tail q + 1,
                 slots := (slots q)[unat (tail q mod max_capacity q) :=
                   \<lparr>turn = tail q div max_capacity q * 2 + 2, storage = None\<rparr>]\<rparr>"
  using assms
  by (auto simp: pop_unfold try_pop_unfold Let_def split: if_splits option.splits)

lemma slot_dtor_odd: "slot_dtor s = (if odd (turn s) then destroy s else Inr s)"
  by (simp add: slot_dtor_def even_iff_mod_2_eq_zero)

subsection \<open>Construction\<close>

lemma fresh_queue_simps [simp]:
  "max_capacity (fresh_queue C) = C"
  "head (fresh_queue C) = 0"
  "tail (fresh_queue C) = 0"
  "length (slots (fresh_queue C)) = Suc (unat C)"
  "j \<le> unat C \<Longrightarrow> slots (fresh_queue C) ! j = new_slot"
  by (simp_all add: fresh_queue_def del: replicate_Suc)

lemma init_slots_id:
  "unat cap \<le> length sl \<Longrightarrow> set sl \<subseteq> {new_slot} \<Longrightarrow> init_slots cap i sl = Inr sl"
proof (induction cap i sl rule: init_slots.induct)
  case (1 cap i sl)
  show ?case
  proof (cases "i < cap")
    case True
    then have "unat i < length sl"
      using "1.prems"(1) by (simp add: word_less_nat_alt)
    moreover from this "1.prems"(2) have "sl[unat i := new_slot] = sl"
      by (auto simp: list_update_same_conv dest: nth_mem)
    ultimately show ?thesis
      using True "1.IH" "1.prems" by simp
  next
    case False
    then show ?thesis by simp
  qed
qed

lemma init_slots_no_bad_alloc: "init_slots cap i sl \<noteq> Inl BadAlloc"
  by (induction cap i sl rule: init_slots.induct) (simp split: if_splits)

lemma queue_ctor_Inr:
  assumes "queue_ctor al alloc C = Inr q"
  shows "q = fresh_queue C"
    and "C + 1 \<noteq> 0"
    and "\<exists>p. alloc (Suc (unat C)) = Some p \<and> p mod al = 0"
proof -
  have ne: "C + 1 \<noteq> 0"
  proof
    assume z: "C + 1 = 0"
    then have "C \<noteq> 0" by auto
    then have "0 < C" by (simp add: word_neq_0_conv)
    then have "init_slots C 0 ([] :: 'a slot list) = Inl OutOfBounds"
      by simp
    with assms z show False
      by (simp add: queue_ctor_def split: option.splits if_splits)
  qed
  then have u: "unat (C + 1) = Suc (unat C)"
    using unatSuc [of C] by (simp add: add.commute)
  have "init_slots C 0 (replicate (Suc (unat C)) (new_slot :: 'a slot))
          = Inr (replicate (Suc (unat C)) new_slot)"
    by (rule init_slots_id) (auto simp del: replicate_Suc)
  with assms u show "q = fresh_queue C"
    and "\<exists>p. alloc (Suc (unat C)) = Some p \<and> p mod al = 0"
    by (auto simp: queue_ctor_def fresh_queue_def split: option.splits if_splits)
  show "C + 1 \<noteq> 0" by (rule ne)
qed

lemma queue_ctor_ok:
  assumes "alloc (Suc (unat C)) = Some p" "p mod al = 0" "C + 1 \<noteq> 0"
  shows "queue_ctor al alloc C = Inr (fresh_queue C)"
proof -
  from assms(3) have u: "unat (C + 1) = Suc (unat C)"
    using unatSuc [of C] by (simp add: add.commute)
  have "init_slots C 0 (replicate (Suc (unat C)) (new_slot :: 'a slot))
          = Inr (replicate (Suc (unat C)) new_slot)"
    by (rule init_slots_id) (auto simp del: replicate_Suc)
  with assms u show ?thesis
    by (simp add: queue_ctor_def fresh_queue_def)
qed

lemma queue_ctor_throws_iff:
  "queue_ctor al alloc C = Inl BadAlloc \<longleftrightarrow>
     alloc (unat (C + 1)) = None \<or> (\<exists>p. alloc (unat (C + 1)) = Some p \<and> p mod al \<noteq> 0)"
proof (cases "alloc (unat (C + 1))")
  case None
  then show ?thesis by (simp add: queue_ctor_def)
next
  case (Some p)
  show ?thesis
  proof (cases "p mod al = 0")
    case True
    with Some init_slots_no_bad_alloc [of C 0 "replicate (unat (C + 1)) new_slot"]
    show ?thesis
      by (auto simp: queue_ctor_def simp del: init_slots.simps split: sum.splits)
  next
    case False
    with Some show ?thesis by (simp add: queue_ctor_def del: init_slots.simps)
  qed
qed

lemma fresh_queue_10:
  "(fresh_queue 10 :: 'a queue) =
     \<lparr>max_capacity = 10,
      slots = [new_slot, new_slot, new_slot, new_slot, new_slot, new_slot, new_slot, new_slot,
               new_slot, new_slot, new_slot],
      head = 0, tail = 0\<rparr>"
  by (simp add: fresh_queue_def) (simp add: numeral_eq_Suc)

subsection \<open>Runs\<close>


lemma run_Cons_Inr:
  assumes "run (x # xs) q = Some (Inr (rs, q''))"
  obtains r q' rs' where "step x q = Some (Inr (r, q'))" "run xs q' = Some (Inr (rs', q''))"
    "rs = r # rs'"
  using assms
  by (auto split: option.splits sum.splits)


lemma step_capacity:
  "step x q = Some (Inr (r, q')) \<Longrightarrow> max_capacity q' = max_capacity q"
  by (cases x)
    (auto simp: push_def try_push_def emplace_unfold try_emplace_unfold pop_unfold
      try_pop_unfold Let_def split: if_splits option.splits)

lemma run_capacity:
  "run ops q = Some (Inr (rs, q')) \<Longrightarrow> max_capacity q' = max_capacity q"
proof (induction ops arbitrary: q rs)
  case Nil
  then show ?case by simp
next
  case (Cons x xs)
  from Cons.prems obtain r q1 rs' where
    s: "step x q = Some (Inr (r, q1))" and t: "run xs q1 = Some (Inr (rs', q'))"
    by (rule run_Cons_Inr)
  from Cons.IH [OF t] step_capacity [OF s] show ?case by simp
qed

lemma inserted_Cons [simp]: "inserted (x # xs) (r # rs) = given x r @ inserted xs rs"
  by (simp add: inserted_def)

lemma removed_Cons [simp]: "removed (r # rs) = taken r @ removed rs"
  by (simp add: removed_def)

lemma inserted_Nil [simp]: "inserted [] rs = []"
  by (simp add: inserted_def)

lemma removed_Nil [simp]: "removed [] = []"
  by (simp add: removed_def)


subsection \<open>Parity and liveness\<close>

lemma queue_ok_update:
  "queue_ok q \<Longrightarrow> slot_ok s \<Longrightarrow> slots q' = (slots q)[i := s] \<Longrightarrow> queue_ok q'"
  unfolding queue_ok_def list_all_iff
  using set_update_subset_insert [of "slots q" i s] by auto

lemma slot_ok_written: "slot_ok \<lparr>turn = g * 2 + 1, storage = Some v\<rparr>"
  by (simp add: slot_ok_def)

lemma slot_ok_cleared: "slot_ok \<lparr>turn = g * 2 + 2, storage = None\<rparr>"
  by (simp add: slot_ok_def)

lemma queue_ok_fresh: "queue_ok (fresh_queue C)"
  by (simp add: queue_ok_def fresh_queue_def slot_ok_def list_all_iff del: replicate_Suc)


lemma emplace_queue_ok:
  assumes "queue_ok q" "emplace q v = Some (Inr q')"
  shows "queue_ok q'"
proof -
  from assms(2) obtain i t where "slots q' = (slots q)[i := \<lparr>turn = t * 2 + 1, storage = Some v\<rparr>]"
    by (simp add: emplace_unfold Let_def split: if_splits) fastforce
  with assms(1) slot_ok_written show ?thesis
    by (rule queue_ok_update)
qed

lemma try_emplace_queue_ok:
  assumes "queue_ok q" "try_emplace q v = Inr (b, q')"
  shows "queue_ok q'"
proof (cases b)
  case True
  with assms(2) obtain i t where
    "slots q' = (slots q)[i := \<lparr>turn = t * 2 + 1, storage = Some v\<rparr>]"
    by (simp add: try_emplace_unfold Let_def split: if_splits) fastforce
  with assms(1) slot_ok_written show ?thesis
    by (rule queue_ok_update)
next
  case False
  with assms(2) have "q' = q"
    by (simp add: try_emplace_unfold Let_def split: if_splits)
  with assms(1) show ?thesis by simp
qed

lemma pop_queue_ok:
  assumes "queue_ok q" "pop q = Some (Inr (x, q'))"
  shows "queue_ok q'"
proof -
  from assms(2) obtain i t where "slots q' = (slots q)[i := \<lparr>turn = t * 2 + 2, storage = None\<rparr>]"
    by (simp add: pop_unfold Let_def split: if_splits option.splits) fastforce
  with assms(1) slot_ok_cleared show ?thesis
    by (rule queue_ok_update)
qed

lemma try_pop_queue_ok:
  assumes "queue_ok q" "try_pop q = Inr (r, q')"
  shows "queue_ok q'"
proof (cases r)
  case (Some x)
  with assms(2) obtain i t where
    "slots q' = (slots q)[i := \<lparr>turn = t * 2 + 2, storage = None\<rparr>]"
    by (simp add: try_pop_unfold Let_def split: if_splits option.splits) fastforce
  with assms(1) slot_ok_cleared show ?thesis
    by (rule queue_ok_update)
next
  case None
  with assms(2) have "q' = q"
    by (simp add: try_pop_unfold Let_def split: if_splits option.splits)
  with assms(1) show ?thesis by simp
qed

subsection \<open>The order invariant\<close>

text \<open>
  A write extends the list of pending elements at its end, a read takes its first
  element; a run from a constructed queue keeps the invariant and never runs into
  undefined behaviour.
\<close>

lemma ring_idx_lt: "max_capacity q \<noteq> 0 \<Longrightarrow> ring_idx q k < unat (max_capacity q)"
  by (simp add: ring_idx_def idx_lt)

lemma ring_idx_update [simp]:
  "ring_idx (q\<lparr>head := h\<rparr>) = ring_idx q"
  "ring_idx (q\<lparr>slots := sl\<rparr>) = ring_idx q"
  by (simp_all add: ring_idx_def fun_eq_iff)

lemma ring_idx_shift [simp]:
  "ring_idx (q\<lparr>tail := tail q + 1\<rparr>) k = ring_idx q (Suc k)"
  by (simp add: ring_idx_def ac_simps)

lemma fifo_inv_in_range: "fifo_inv q p \<Longrightarrow> in_range q"
  by (simp add: fifo_inv_def)

lemma fifo_inv_fresh:
  "C \<noteq> 0 \<Longrightarrow> fifo_inv (fresh_queue C) []"
  by (simp add: fifo_inv_def in_range_def)

lemma fifo_inv_write:
  assumes inv: "fifo_inv q p"
    and i: "i = unat (head q mod max_capacity q)"
    and ev: "even (turn (slots q ! i))"
    and od: "odd t"
  shows "fifo_inv (q\<lparr>head := head q + 1,
                     slots := (slots q)[i := \<lparr>turn = t, storage = Some v\<rparr>]\<rparr>) (p @ [v])"
proof -
  let ?n = "length p"
  let ?q' = "q\<lparr>head := head q + 1, slots := (slots q)[i := \<lparr>turn = t, storage = Some v\<rparr>]\<rparr>"
  from inv have rng: "in_range q" and hd: "head q = tail q + of_nat ?n"
    and inj: "inj_on (ring_idx q) {..<?n}"
    and full: "\<And>k. k < ?n \<Longrightarrow> odd (turn (slots q ! ring_idx q k)) \<and>
                          storage (slots q ! ring_idx q k) = Some (p ! k)"
    and free: "\<And>j. j < unat (max_capacity q) \<Longrightarrow> j \<notin> ring_idx q ` {..<?n} \<Longrightarrow>
          even (turn (slots q ! j)) \<and> storage (slots q ! j) = None"
    by (auto simp: fifo_inv_def)
  from rng have c0: "max_capacity q \<noteq> 0" and len: "unat (max_capacity q) < length (slots q)"
    by (simp_all add: in_range_def)
  have at_n: "i = ring_idx q ?n"
    by (simp add: i hd ring_idx_def)
  have ilt: "i < unat (max_capacity q)"
    using c0 by (simp add: at_n ring_idx_lt)
  have fresh: "i \<notin> ring_idx q ` {..<?n}"
    using ev full by auto
  have "in_range ?q'"
    using rng by (simp add: in_range_def)
  moreover have "head ?q' = tail ?q' + of_nat (length (p @ [v]))"
    by (simp add: hd)
  moreover have "inj_on (ring_idx ?q') {..<length (p @ [v])}"
    using inj fresh by (simp add: lessThan_Suc at_n)
  moreover have "odd (turn (slots ?q' ! ring_idx ?q' k)) \<and>
        storage (slots ?q' ! ring_idx ?q' k) = Some ((p @ [v]) ! k)"
    if "k < length (p @ [v])" for k
  proof (cases "k < ?n")
    case True
    with fresh have "ring_idx q k \<noteq> i" by auto
    with True full [of k] show ?thesis
      by (simp add: nth_append)
  next
    case False
    with that have "k = ?n" by simp
    with od ilt len show ?thesis
      by (simp add: at_n [symmetric])
  qed
  moreover have "even (turn (slots ?q' ! j)) \<and> storage (slots ?q' ! j) = None"
    if "j < unat (max_capacity ?q')" "j \<notin> ring_idx ?q' ` {..<length (p @ [v])}" for j
  proof -
    from that(2) have "j \<noteq> i" and "j \<notin> ring_idx q ` {..<?n}"
      by (auto simp: lessThan_Suc at_n)
    with that(1) free [of j] show ?thesis by simp
  qed
  ultimately show ?thesis
    unfolding fifo_inv_def by blast
qed

lemma fifo_inv_read:
  assumes inv: "fifo_inv q p"
    and i: "i = unat (tail q mod max_capacity q)"
    and od: "odd (turn (slots q ! i))"
    and ev: "even t"
  shows "\<exists>x p'. p = x # p' \<and> storage (slots q ! i) = Some x \<and>
           fifo_inv (q\<lparr>tail := tail q + 1,
                       slots := (slots q)[i := \<lparr>turn = t, storage = None\<rparr>]\<rparr>) p'"
proof -
  let ?n = "length p"
  let ?q' = "q\<lparr>tail := tail q + 1, slots := (slots q)[i := \<lparr>turn = t, storage = None\<rparr>]\<rparr>"
  from inv have rng: "in_range q" and hd: "head q = tail q + of_nat ?n"
    and inj: "inj_on (ring_idx q) {..<?n}"
    and full: "\<And>k. k < ?n \<Longrightarrow> odd (turn (slots q ! ring_idx q k)) \<and>
                          storage (slots q ! ring_idx q k) = Some (p ! k)"
    and free: "\<And>j. j < unat (max_capacity q) \<Longrightarrow> j \<notin> ring_idx q ` {..<?n} \<Longrightarrow>
          even (turn (slots q ! j)) \<and> storage (slots q ! j) = None"
    by (auto simp: fifo_inv_def)
  from rng have c0: "max_capacity q \<noteq> 0" and len: "unat (max_capacity q) < length (slots q)"
    by (simp_all add: in_range_def)
  have i0: "i = ring_idx q 0"
    by (simp add: i ring_idx_def)
  have ilt: "i < unat (max_capacity q)"
    using c0 by (simp add: i0 ring_idx_lt)
  from od ilt free [of i] have "i \<in> ring_idx q ` {..<?n}"
    by blast
  then have pos: "0 < ?n" by auto
  then obtain x p' where p: "p = x # p'"
    by (cases p) auto
  from full [of 0] pos have st: "storage (slots q ! i) = Some x"
    by (simp add: i0 p)
  have shift: "ring_idx ?q' k = ring_idx q (Suc k)" for k
    by simp
  have other: "ring_idx q (Suc k) \<noteq> i" if "k < length p'" for k
  proof
    assume "ring_idx q (Suc k) = i"
    then have "ring_idx q (Suc k) = ring_idx q 0" by (simp add: i0)
    with inj that p have "Suc k = 0"
      by (auto dest!: inj_onD [where x = "Suc k" and y = 0])
    then show False by simp
  qed
  have "in_range ?q'"
    using rng by (simp add: in_range_def)
  moreover have "head ?q' = tail ?q' + of_nat (length p')"
    by (simp add: hd p)
  moreover have "inj_on (ring_idx ?q') {..<length p'}"
  proof (rule inj_onI)
    fix a b
    assume "a \<in> {..<length p'}" "b \<in> {..<length p'}" "ring_idx ?q' a = ring_idx ?q' b"
    then have "Suc a \<in> {..<?n}" "Suc b \<in> {..<?n}" "ring_idx q (Suc a) = ring_idx q (Suc b)"
      by (simp_all add: p shift)
    with inj have "Suc a = Suc b" by (meson inj_onD)
    then show "a = b" by simp
  qed
  moreover have "odd (turn (slots ?q' ! ring_idx ?q' k)) \<and>
        storage (slots ?q' ! ring_idx ?q' k) = Some (p' ! k)"
    if "k < length p'" for k
    using full [of "Suc k"] other [OF that] that
    by (simp add: shift p)
  moreover have "even (turn (slots ?q' ! j)) \<and> storage (slots ?q' ! j) = None"
    if "j < unat (max_capacity ?q')" "j \<notin> ring_idx ?q' ` {..<length p'}" for j
  proof (cases "j = i")
    case True
    with ev ilt len show ?thesis by simp
  next
    case False
    have "j \<notin> ring_idx q ` {..<?n}"
    proof
      assume "j \<in> ring_idx q ` {..<?n}"
      then obtain k where k: "k < ?n" "j = ring_idx q k" by auto
      have "k \<noteq> 0"
      proof
        assume "k = 0"
        with k False i0 show False by simp
      qed
      then obtain k' where "k = Suc k'" by (cases k) auto
      with k p have "k' < length p'" "j = ring_idx ?q' k'"
        by (simp_all add: shift)
      with that(2) show False by auto
    qed
    with that(1) free [of j] False show ?thesis by simp
  qed
  ultimately have "fifo_inv ?q' p'"
    unfolding fifo_inv_def by blast
  with p st show ?thesis by blast
qed

lemma step_fifo:
  assumes inv: "fifo_inv q p" and st: "step x q = Some (Inr (r, q'))"
  shows "\<exists>p'. fifo_inv q' p' \<and> p @ given x r = taken r @ p'"
proof -
  note rng = fifo_inv_in_range [OF inv]
  have wr: "\<exists>p'. fifo_inv q' p' \<and> p @ [v] = p'"
    if "turn (slots q ! unat (head q mod max_capacity q)) = head q div max_capacity q * 2"
      and "q' = q\<lparr>head := head q + 1,
              slots := (slots q)[unat (head q mod max_capacity q) :=
                \<lparr>turn = head q div max_capacity q * 2 + 1, storage = Some v\<rparr>]\<rparr>" for v
    using fifo_inv_write [OF inv refl, of "head q div max_capacity q * 2 + 1" v] that
    by simp
  have rd: "\<exists>p'. fifo_inv q' p' \<and> p = y # p'"
    if "turn (slots q ! unat (tail q mod max_capacity q)) = tail q div max_capacity q * 2 + 1"
      and "storage (slots q ! unat (tail q mod max_capacity q)) = Some y"
      and "q' = q\<lparr>tail := tail q + 1,
              slots := (slots q)[unat (tail q mod max_capacity q) :=
                \<lparr>turn = tail q div max_capacity q * 2 + 2, storage = None\<rparr>]\<rparr>" for y
    using fifo_inv_read [OF inv refl, of "tail q div max_capacity q * 2 + 2"] that
    by auto
  show ?thesis
  proof (cases x)
    case (Emplace v)
    with st wr [of v] show ?thesis
      by (auto simp: emplace_eq [OF rng] Let_def split: if_splits)
  next
    case (Push v)
    with st wr [of v] show ?thesis
      by (auto simp: push_def emplace_eq [OF rng] Let_def split: if_splits)
  next
    case (TryEmplace v)
    with st wr [of v] inv show ?thesis
      by (auto simp: try_emplace_eq [OF rng] Let_def split: if_splits)
  next
    case (TryPush v)
    with st wr [of v] inv show ?thesis
      by (auto simp: try_push_def try_emplace_eq [OF rng] Let_def split: if_splits)
  next
    case Pop
    with st rd show ?thesis
      by (auto simp: pop_eq [OF rng] Let_def split: if_splits option.splits)
  next
    case TryPop
    with st rd inv show ?thesis
      by (auto simp: try_pop_eq [OF rng] Let_def split: if_splits option.splits)
  qed
qed

lemma run_fifo:
  "fifo_inv q p \<Longrightarrow> run ops q = Some (Inr (rs, q')) \<Longrightarrow>
     \<exists>p'. fifo_inv q' p' \<and> p @ inserted ops rs = removed rs @ p'"
proof (induction ops arbitrary: q p rs)
  case Nil
  then show ?case by auto
next
  case (Cons x xs)
  from Cons.prems(2) obtain r q1 rs' where
    s: "step x q = Some (Inr (r, q1))" and t: "run xs q1 = Some (Inr (rs', q'))"
    and rs: "rs = r # rs'"
    by (rule run_Cons_Inr)
  from step_fifo [OF Cons.prems(1) s] obtain p1 where
    p1: "fifo_inv q1 p1" "p @ given x r = taken r @ p1" by blast
  from Cons.IH [OF p1(1) t] obtain p' where
    p': "fifo_inv q' p'" "p1 @ inserted xs rs' = removed rs' @ p'" by blast
  have "p @ inserted (x # xs) rs = (p @ given x r) @ inserted xs rs'"
    by (simp add: rs)
  also have "\<dots> = taken r @ (p1 @ inserted xs rs')"
    by (simp add: p1(2))
  also have "\<dots> = removed rs @ p'"
    by (simp add: p'(2) rs)
  finally show ?case using p'(1) by blast
qed


lemma fifo_inv_full:
  assumes inv: "fifo_inv q p" and full: "length p = unat (max_capacity q)"
  shows "odd (turn (slots q ! unat (head q mod max_capacity q)))"
proof -
  let ?c = "unat (max_capacity q)"
  from inv have rng: "in_range q"
    and inj: "inj_on (ring_idx q) {..<length p}"
    and odd: "\<And>k. k < length p \<Longrightarrow> odd (turn (slots q ! ring_idx q k))"
    by (auto simp: fifo_inv_def)
  from rng have c0: "max_capacity q \<noteq> 0" by (simp add: in_range_def)
  have sub: "ring_idx q ` {..<?c} \<subseteq> {..<?c}"
    using c0 by (auto simp: ring_idx_lt)
  have "card (ring_idx q ` {..<?c}) = ?c"
    using inj by (simp add: full card_image)
  with sub have "ring_idx q ` {..<?c} = {..<?c}"
    by (simp add: card_subset_eq)
  moreover have "unat (head q mod max_capacity q) \<in> {..<?c}"
    using c0 by (simp add: idx_lt)
  ultimately obtain k where "k < ?c" "unat (head q mod max_capacity q) = ring_idx q k"
    by auto
  with odd [of k] show ?thesis
    by (simp add: full)
qed

lemma full_rejects:
  assumes inv: "fifo_inv q p" and full: "length p = unat (max_capacity q)"
  shows "try_emplace q v = Inr (False, q)"
proof -
  from fifo_inv_full [OF inv full]
  have "turn (slots q ! unat (head q mod max_capacity q)) \<noteq> head q div max_capacity q * 2"
    by auto
  then show ?thesis
    by (simp add: try_emplace_eq [OF fifo_inv_in_range [OF inv]])
qed

lemma step_no_fault:
  assumes inv: "fifo_inv q p"
  shows "step x q \<noteq> Some (Inl e)"
proof -
  note r = fifo_inv_in_range [OF inv]
  let ?i = "unat (tail q mod max_capacity q)"
  have live: "storage (slots q ! ?i) \<noteq> None" if "odd (turn (slots q ! ?i))"
  proof -
    from fifo_inv_read [OF inv refl that, of 0] show ?thesis by auto
  qed
  show ?thesis
  proof (cases x)
    case Pop
    with live show ?thesis
      by (auto simp: pop_eq [OF r] Let_def split: option.splits)
  next
    case TryPop
    with live show ?thesis
      by (auto simp: try_pop_eq [OF r] Let_def split: option.splits)
  qed (simp_all add: push_def try_push_def emplace_eq [OF r] try_emplace_eq [OF r] Let_def)
qed

lemma run_no_fault:
  "fifo_inv q p \<Longrightarrow> run ops q \<noteq> Some (Inl e)"
proof (induction ops arbitrary: q p)
  case Nil
  then show ?case by simp
next
  case (Cons x xs)
  show ?case
  proof (cases "step x q")
    case None
    then show ?thesis by simp
  next
    case (Some s)
    show ?thesis
    proof (cases s)
      case (Inl e')
      with Some step_no_fault [OF Cons.prems, of x e'] show ?thesis by simp
    next
      case (Inr rq)
      obtain r q1 where rq: "rq = (r, q1)" by (cases rq)
      from step_fifo [OF Cons.prems] Some Inr rq obtain p1 where "fifo_inv q1 p1"
        by blast
      from Cons.IH [OF this] Some Inr rq show ?thesis
        by (auto split: option.splits sum.splits)
    qed
  qed
qed

subsection \<open>Counting tickets\<close>

lemma split_ticket:
  assumes "0 < (c::nat)"
  obtains d r where "x = c * d + r" "r < c" "x div c = d" "x mod c = r"
  using assms by (metis mod_less_divisor mult_div_mod_eq)

lemma div_between:
  "c * d \<le> m \<Longrightarrow> m < c * d + c \<Longrightarrow> m div c = (d::nat)"
  by (rule div_nat_eqI) simp_all

lemma tickets_below_own: "0 < c \<Longrightarrow> tickets_below c (x mod c) x = x div c"
proof -
  assume c: "0 < c"
  then obtain d r where x: "x = c * d + r" "r < c" "x div c = d" "x mod c = r"
    by (rule split_ticket)
  have "(c * d + r + (c - 1 - r)) div c = d"
    using x(2) by (intro div_between) linarith+
  with x show ?thesis
    unfolding tickets_below_def by metis
qed

lemma tickets_below_free:
  assumes c: "0 < c" and "T \<le> H" "H < T + c"
  shows "tickets_below c (H mod c) T = H div c"
proof -
  from c obtain d r where x: "H = c * d + r" "r < c" "H div c = d" "H mod c = r"
    by (rule split_ticket)
  have "(T + (c - 1 - r)) div c = d"
    using x(1,2) assms(2,3) by (intro div_between) linarith+
  with x show ?thesis
    unfolding tickets_below_def by metis
qed

lemma tickets_below_full:
  assumes c: "0 < c" and "H = T + c"
  shows "tickets_below c (H mod c) T + 1 = H div c"
proof -
  have "tickets_below c (T mod c) T = T div c"
    using c by (rule tickets_below_own)
  moreover have "(T + c) mod c = T mod c" "(T + c) div c = T div c + 1"
    using c div_add_self2 [of c T] by simp_all
  ultimately show ?thesis
    using assms(2) by simp
qed

lemma tickets_below_Suc:
  assumes c: "0 < c" and j: "j < c"
  shows "tickets_below c j (Suc x) = tickets_below c j x + (if x mod c = j then 1 else 0)"
proof -
  from c obtain d r where x: "x = c * d + r" "r < c" "x div c = d" "x mod c = r"
    by (rule split_ticket)
  have e: "c * Suc d = c * d + c" by simp
  show ?thesis
  proof (cases "r \<le> j")
    case True
    have a: "(x + (c - 1 - j)) div c = d"
      using x(1,2) j True by (intro div_between) linarith+
    show ?thesis
    proof (cases "r = j")
      case True
      have "(Suc x + (c - 1 - j)) div c = Suc d"
        using e x(1,2) j True by (intro div_between) linarith+
      with a True x show ?thesis by (simp add: tickets_below_def)
    next
      case False
      have "(Suc x + (c - 1 - j)) div c = d"
        using x(1,2) j True False by (intro div_between) linarith+
      with a False x show ?thesis by (simp add: tickets_below_def)
    qed
  next
    case False
    have a: "(x + (c - 1 - j)) div c = Suc d"
      using e x(1,2) j False by (intro div_between) linarith+
    have "(Suc x + (c - 1 - j)) div c = Suc d"
      using e x(1,2) j False by (intro div_between) linarith+
    with a False x show ?thesis by (simp add: tickets_below_def)
  qed
qed

subsection \<open>The counting invariant\<close>

text \<open>
  It gives every turn its exact value, as long as the counters have not wrapped: the
  steps need the number of insertions so far below \<open>2^64\<close>.
\<close>

lemma unat_ticket: "n < 2 ^ 64 \<Longrightarrow> unat (of_nat n :: size_t) = n"
  by (simp add: unat_of_nat)

lemma ticket_idx: "n < 2 ^ 64 \<Longrightarrow> unat ((of_nat n :: size_t) mod C) = n mod unat C"
  by (simp add: unat_mod unat_ticket)

lemma ticket_turn: "n < 2 ^ 64 \<Longrightarrow> (of_nat n :: size_t) div C = of_nat (n div unat C)"
  by (simp add: word_arith_nat_div unat_ticket)

lemma even_word_of_nat: "even (of_nat n :: size_t) \<longleftrightarrow> even n"
  by simp

lemma counted_inv_in_range: "counted_inv q H T \<Longrightarrow> in_range q"
  by (simp add: counted_inv_def)

lemma counted_inv_fresh: "C \<noteq> 0 \<Longrightarrow> counted_inv (fresh_queue C) 0 0"
  by (simp add: counted_inv_def in_range_def tickets_below_def unat_gt_0)

lemma counted_inv_write:
  assumes inv: "counted_inv q H T" and H: "H < 2 ^ 64"
    and i: "i = unat (head q mod max_capacity q)"
    and g: "g = head q div max_capacity q"
    and t: "turn (slots q ! i) = g * 2"
  shows "counted_inv (q\<lparr>head := head q + 1,
                        slots := (slots q)[i := \<lparr>turn = g * 2 + 1, storage = Some v\<rparr>]\<rparr>)
           (Suc H) T"
proof -
  let ?c = "unat (max_capacity q)"
  from inv have rng: "in_range q" and hd: "head q = of_nat H" and tl: "tail q = of_nat T"
    and le: "T \<le> H" "H \<le> T + ?c"
    and turns: "\<And>j. j < ?c \<Longrightarrow>
        turn (slots q ! j) = of_nat (tickets_below ?c j H + tickets_below ?c j T)"
    by (auto simp: counted_inv_def)
  from rng have c: "0 < ?c" and len: "?c < length (slots q)"
    by (simp_all add: in_range_def unat_gt_0)
  have i': "i = H mod ?c"
    using H by (simp add: i hd ticket_idx)
  have g': "g = of_nat (H div ?c)"
    using H by (simp add: g hd ticket_turn)
  have ilt: "i < ?c"
    using c by (simp add: i')
  have own: "tickets_below ?c i H = H div ?c"
    using c by (simp add: i' tickets_below_own)
  have "H \<noteq> T + ?c"
  proof
    assume full: "H = T + ?c"
    from tickets_below_full [OF c full] have "H div ?c = Suc (tickets_below ?c i T)"
      by (simp add: i')
    with turns [OF ilt] own
    have "turn (slots q ! i) = of_nat (Suc (2 * tickets_below ?c i T))"
      by simp
    then have "odd (turn (slots q ! i))"
      by (simp only: even_word_of_nat) simp
    with t show False by simp
  qed
  with le have le': "Suc H \<le> T + ?c" by simp
  have new: "g * 2 + 1 = of_nat (tickets_below ?c i (Suc H) + tickets_below ?c i T)"
  proof -
    have "tickets_below ?c i (Suc H) = Suc (tickets_below ?c i H)"
      using c ilt by (simp add: tickets_below_Suc i')
    then have "of_nat (tickets_below ?c i (Suc H) + tickets_below ?c i T)
          = turn (slots q ! i) + 1"
      using turns [OF ilt] by simp
    with t show ?thesis by simp
  qed
  have old: "tickets_below ?c j (Suc H) = tickets_below ?c j H" if "j < ?c" "j \<noteq> i" for j
    using c that by (simp add: tickets_below_Suc i')
  show ?thesis
    unfolding counted_inv_def
    using rng tl le le' len ilt new turns old
    by (auto simp: in_range_def hd nth_list_update)
qed

lemma counted_inv_read:
  assumes inv: "counted_inv q H T" and T: "T < 2 ^ 64"
    and i: "i = unat (tail q mod max_capacity q)"
    and g: "g = tail q div max_capacity q"
    and t: "turn (slots q ! i) = g * 2 + 1"
  shows "counted_inv (q\<lparr>tail := tail q + 1,
                        slots := (slots q)[i := \<lparr>turn = g * 2 + 2, storage = None\<rparr>]\<rparr>)
           H (Suc T)"
proof -
  let ?c = "unat (max_capacity q)"
  from inv have rng: "in_range q" and hd: "head q = of_nat H" and tl: "tail q = of_nat T"
    and le: "T \<le> H" "H \<le> T + ?c"
    and turns: "\<And>j. j < ?c \<Longrightarrow>
        turn (slots q ! j) = of_nat (tickets_below ?c j H + tickets_below ?c j T)"
    by (auto simp: counted_inv_def)
  from rng have c: "0 < ?c" and len: "?c < length (slots q)"
    by (simp_all add: in_range_def unat_gt_0)
  have i': "i = T mod ?c"
    using T by (simp add: i tl ticket_idx)
  have g': "g = of_nat (T div ?c)"
    using T by (simp add: g tl ticket_turn)
  have ilt: "i < ?c"
    using c by (simp add: i')
  have own: "tickets_below ?c i T = T div ?c"
    using c by (simp add: i' tickets_below_own)
  have "H \<noteq> T"
  proof
    assume "H = T"
    with turns [OF ilt] own
    have "turn (slots q ! i) = of_nat (2 * (T div ?c))"
      by simp
    then have "even (turn (slots q ! i))"
      by (simp only: even_word_of_nat) simp
    with t show False by simp
  qed
  with le have le': "Suc T \<le> H" by simp
  have new: "g * 2 + 2 = of_nat (tickets_below ?c i H + tickets_below ?c i (Suc T))"
  proof -
    have "tickets_below ?c i (Suc T) = Suc (tickets_below ?c i T)"
      using c ilt by (simp add: tickets_below_Suc i')
    then have "of_nat (tickets_below ?c i H + tickets_below ?c i (Suc T))
          = turn (slots q ! i) + 1"
      using turns [OF ilt] by simp
    with t show ?thesis by simp
  qed
  have old: "tickets_below ?c j (Suc T) = tickets_below ?c j T" if "j < ?c" "j \<noteq> i" for j
    using c that by (simp add: tickets_below_Suc i')
  show ?thesis
    unfolding counted_inv_def
    using rng hd le le' len ilt new turns old
    by (auto simp: in_range_def tl nth_list_update)
qed

lemma counted_inv_next_write:
  assumes inv: "counted_inv q H T" and H: "H < 2 ^ 64" and room: "H < T + unat (max_capacity q)"
  shows "turn (slots q ! unat (head q mod max_capacity q)) = head q div max_capacity q * 2"
proof -
  let ?c = "unat (max_capacity q)"
  from inv have rng: "in_range q" and hd: "head q = of_nat H" and le: "T \<le> H"
    and turns: "\<And>j. j < ?c \<Longrightarrow>
        turn (slots q ! j) = of_nat (tickets_below ?c j H + tickets_below ?c j T)"
    by (auto simp: counted_inv_def)
  from rng have c: "0 < ?c" by (simp add: in_range_def unat_gt_0)
  have "turn (slots q ! (H mod ?c)) = of_nat (H div ?c + H div ?c)"
    using turns [of "H mod ?c"] c tickets_below_own [OF c, of H]
      tickets_below_free [OF c le room] by simp
  then show ?thesis
    using H by (simp add: hd ticket_idx ticket_turn)
qed

lemma step_counted:
  assumes inv: "counted_inv q H T" and H: "H < 2 ^ 64" and st: "step x q = Some (Inr (r, q'))"
  shows "counted_inv q' (H + length (given x r)) (T + length (taken r))"
proof -
  note rng = counted_inv_in_range [OF inv]
  from inv H have T: "T < 2 ^ 64"
    by (simp add: counted_inv_def)
  note wr = counted_inv_write [OF inv H refl refl]
  note rd = counted_inv_read [OF inv T refl refl]
  show ?thesis
  proof (cases x)
    case (Emplace v)
    with st wr [of v] show ?thesis
      by (auto simp: emplace_eq [OF rng] Let_def split: if_splits)
  next
    case (Push v)
    with st wr [of v] show ?thesis
      by (auto simp: push_def emplace_eq [OF rng] Let_def split: if_splits)
  next
    case (TryEmplace v)
    with st wr [of v] inv show ?thesis
      by (auto simp: try_emplace_eq [OF rng] Let_def split: if_splits)
  next
    case (TryPush v)
    with st wr [of v] inv show ?thesis
      by (auto simp: try_push_def try_emplace_eq [OF rng] Let_def split: if_splits)
  next
    case Pop
    with st rd show ?thesis
      by (auto simp: pop_eq [OF rng] Let_def split: if_splits option.splits)
  next
    case TryPop
    with st rd inv show ?thesis
      by (auto simp: try_pop_eq [OF rng] Let_def split: if_splits option.splits)
  qed
qed

lemma run_counted:
  "counted_inv q H T \<Longrightarrow> H + length (inserted ops rs) < 2 ^ 64 \<Longrightarrow>
     run ops q = Some (Inr (rs, q')) \<Longrightarrow>
     counted_inv q' (H + length (inserted ops rs)) (T + length (removed rs))"
proof (induction ops arbitrary: q H T rs)
  case Nil
  then show ?case by auto
next
  case (Cons x xs)
  from Cons.prems(3) obtain r q1 rs' where
    s: "step x q = Some (Inr (r, q1))" and t: "run xs q1 = Some (Inr (rs', q'))"
    and rs: "rs = r # rs'"
    by (rule run_Cons_Inr)
  from Cons.prems(2) have H: "H < 2 ^ 64" by simp
  have 1: "counted_inv q1 (H + length (given x r)) (T + length (taken r))"
    using Cons.prems(1) H s by (rule step_counted)
  have 2: "H + length (given x r) + length (inserted xs rs') < 2 ^ 64"
    using Cons.prems(2) by (simp add: rs)
  from Cons.IH [OF 1 2 t] show ?case
    by (simp add: rs add.assoc)
qed

lemma room_after_dequeue:
  assumes inv: "counted_inv q H T" and H: "H < 2 ^ 64"
    and deq: "pop q = Some (Inr (x, q')) \<or> try_pop q = Inr (Some x, q')"
  shows "\<exists>q''. try_emplace q' w = Inr (True, q'') \<and> emplace q' w = Some (Inr q'')"
proof -
  note d = dequeue_Inr [OF deq]
  from inv H have T: "T < 2 ^ 64"
    by (simp add: counted_inv_def)
  have inv': "counted_inv q' H (Suc T)"
    unfolding d(5) using inv T refl refl d(3) by (rule counted_inv_read)
  then have r: "in_range q'" and le1: "Suc T \<le> H"
    by (simp_all add: counted_inv_def)
  from inv have le2: "H \<le> T + unat (max_capacity q)"
    by (simp add: counted_inv_def)
  have "max_capacity q' = max_capacity q"
    by (simp add: d(5))
  with le2 have "H < Suc T + unat (max_capacity q')"
    by simp
  with inv' H
  have "turn (slots q' ! unat (head q' mod max_capacity q')) = head q' div max_capacity q' * 2"
    by (rule counted_inv_next_write)
  then show ?thesis
    by (simp add: try_emplace_eq [OF r] emplace_eq [OF r])
qed

subsection \<open>The capacity-10 scenario and the wrapped counters\<close>

lemma scenario_capacity_10:
  "map_option (map_sum id fst)
     (run [TryEmplace a0, TryEmplace a1, TryEmplace a2, TryEmplace a3, TryEmplace a4,
           TryEmplace a5, TryEmplace a6, TryEmplace a7, TryEmplace a8, TryEmplace a9,
           TryEmplace b, Pop, TryEmplace c] (fresh_queue 10))
   = Some (Inr [Flag True, Flag True, Flag True, Flag True, Flag True, Flag True, Flag True,
                Flag True, Flag True, Flag True, Flag False, Got a0, Flag True])"
  by (simp add: fresh_queue_10 try_emplace_eq pop_eq in_range_def)




text \<open>
  Until the counters wrap: a queue that holds \<open>C\<close> elements rejects
  \<^verbatim>\<open>try_emplace\<close>/\<^verbatim>\<open>try_push\<close> and is left as it is, the insert attempt that
  follows a successful removal succeeds, and the scenario of capacity 10 runs as the
  specification says.
\<close>

lemma capacity_bound_below_wrap:
  assumes ctor: "queue_ctor al alloc C = Inr q0" and C: "C \<noteq> 0"
    and run: "run ops q0 = Some (Inr (rs, q))"
  shows "(length (inserted ops rs) = length (removed rs) + unat C \<longrightarrow>
            try_emplace q v = Inr (False, q) \<and> try_push q v = Inr (False, q)) \<and>
         (length (inserted ops rs) < 2 ^ 64 \<longrightarrow>
            (\<forall>x q'. pop q = Some (Inr (x, q')) \<or> try_pop q = Inr (Some x, q') \<longrightarrow>
               (\<exists>q''. try_emplace q' w = Inr (True, q'') \<and> try_push q' w = Inr (True, q'') \<and>
                      emplace q' w = Some (Inr q'')))) \<and>
         (C = 10 \<longrightarrow>
            map_option (map_sum id fst)
              (run [TryEmplace a0, TryEmplace a1, TryEmplace a2, TryEmplace a3, TryEmplace a4,
                    TryEmplace a5, TryEmplace a6, TryEmplace a7, TryEmplace a8, TryEmplace a9,
                    TryEmplace b, Pop, TryEmplace c] q0)
            = Some (Inr [Flag True, Flag True, Flag True, Flag True, Flag True, Flag True,
                         Flag True, Flag True, Flag True, Flag True, Flag False, Got a0,
                         Flag True]))"
proof -
  note q0 = queue_ctor_Inr(1) [OF ctor]
  have cap: "max_capacity q = C"
    using run_capacity [OF run] by (simp add: q0)
  have full: "try_emplace q v = Inr (False, q)"
    if "length (inserted ops rs) = length (removed rs) + unat C"
  proof -
    from C have "fifo_inv q0 []"
      by (simp add: q0 fifo_inv_fresh)
    from run_fifo [OF this run] obtain p where
      p: "fifo_inv q p" "inserted ops rs = removed rs @ p"
      by auto
    from p(2) that have "length p = unat (max_capacity q)"
      by (simp add: cap)
    with p(1) show ?thesis by (rule full_rejects)
  qed
  have room: "\<exists>q''. try_emplace q' w = Inr (True, q'') \<and> emplace q' w = Some (Inr q'')"
    if len: "length (inserted ops rs) < 2 ^ 64"
      and deq: "pop q = Some (Inr (x, q')) \<or> try_pop q = Inr (Some x, q')" for x q'
  proof -
    from C have "counted_inv q0 0 0"
      by (simp add: q0 counted_inv_fresh)
    moreover from len have "0 + length (inserted ops rs) < 2 ^ 64" by simp
    ultimately have "counted_inv q (0 + length (inserted ops rs)) (0 + length (removed rs))"
      using run by (rule run_counted)
    then have inv: "counted_inv q (length (inserted ops rs)) (length (removed rs))"
      by simp
    from inv len deq show ?thesis
      by (rule room_after_dequeue)
  qed
  have scen: "map_option (map_sum id fst)
              (run [TryEmplace a0, TryEmplace a1, TryEmplace a2, TryEmplace a3, TryEmplace a4,
                    TryEmplace a5, TryEmplace a6, TryEmplace a7, TryEmplace a8, TryEmplace a9,
                    TryEmplace b, Pop, TryEmplace c] q0)
            = Some (Inr [Flag True, Flag True, Flag True, Flag True, Flag True, Flag True,
                         Flag True, Flag True, Flag True, Flag True, Flag False, Got a0,
                         Flag True])" if "C = 10"
    unfolding q0 that by (rule scenario_capacity_10)
  from full room scen show ?thesis
    unfolding try_push_def by blast
qed


subsection \<open>The ring under the writes to a slot\<close>




lemma ring_core_fresh: "unat C < n \<Longrightarrow> ring_core C (replicate n new_slot) 0 0 [] {}"
  by (simp add: ring_core_def)






subsection \<open>Frame conditions\<close>

lemma target_in_range:
  "in_range q \<Longrightarrow>
     target q h = Inr (unat (h mod max_capacity q), slots q ! unat (h mod max_capacity q),
                       h div max_capacity q)"
  using idx_lt [of q h]
  by (simp add: target_def get_idx_def get_current_turn_def slot_at_def in_range_def)


lemma producer_at_frame [simp]:
  "producer_at (q\<lparr>tail := x\<rparr>) a = producer_at q a"
  by (cases a) simp_all

lemma consumer_at_frame [simp]:
  "consumer_at (q\<lparr>head := x\<rparr>) b = consumer_at q b"
  by (cases b) simp_all

lemma write_ticket_frame [simp]:
  "write_ticket (q\<lparr>tail := x\<rparr>) a = write_ticket q a"
  "write_ticket (q\<lparr>slots := sl\<rparr>) a = write_ticket q a"
  by (cases a; simp)+

lemma read_ticket_frame [simp]:
  "read_ticket (q\<lparr>head := x\<rparr>) b = read_ticket q b"
  "read_ticket (q\<lparr>slots := sl\<rparr>) b = read_ticket q b"
  by (cases b; simp)+

lemma stale_frame [simp]:
  "stale (q\<lparr>head := x\<rparr>) b = stale q b"
  "stale (q\<lparr>tail := x\<rparr>) b = stale q b"
  "stale (q\<lparr>slots := sl\<rparr>) b = stale q b"
  by (cases b; simp)+




lemma in_range_frame [simp]:
  "in_range (q\<lparr>head := x\<rparr>) = in_range q"
  "in_range (q\<lparr>tail := x\<rparr>) = in_range q"
  "in_range (q\<lparr>slots := (slots q)[i := s]\<rparr>) = in_range q"
  by (simp_all add: in_range_def)

lemma in_range_idx: "in_range q \<Longrightarrow> unat (h mod max_capacity q) < length (slots q)"
  using idx_lt [of q h] by (simp add: in_range_def)

subsection \<open>The steps of the producer\<close>









subsection \<open>The steps of the consumer\<close>










subsection \<open>One producer and one consumer\<close>

text \<open>
  Every step of the producer and every step of the consumer keeps the invariant, and
  none runs into undefined behaviour; so does every schedule.
\<close>

lemma current_pc [simp]: "current (th\<lparr>pc := a\<rparr>) = current th"
  by (simp add: current_def)



lemma returns_simps [simp]:
  "program (returns th r) = program th"
  "pc (returns th r) = Idle"
  "results (returns th r) = results th @ [r]"
  by (simp_all add: returns_def)


























subsection \<open>Schedules\<close>

lemma exec_append:
  "exec (s @ s') c = (case exec s c of Inl e \<Rightarrow> Inl e | Inr c' \<Rightarrow> exec s' c')"
  by (induction s arbitrary: c) (auto split: sum.splits)

lemma pc_same: "pc a = k \<Longrightarrow> a\<lparr>pc := k\<rparr> = a"
  by (cases a) simp

lemma returns_pc [simp]: "returns (a\<lparr>pc := k\<rparr>) r = returns a r"
  by (simp add: returns_def)

lemma thread_step_at:
  "current a = Some x \<Longrightarrow> thread_step q (a\<lparr>pc := k\<rparr>) = at_pc k x q (a\<lparr>pc := k\<rparr>)"
  by (simp add: thread_step_def)


subsection \<open>The blocking enqueue\<close>

lemma await_empty_step:
  assumes "in_range q" "current a = Some x" "pc a = Await_empty h v"
  shows "thread_step q a =
           Inr (q, if turn (slots q ! unat (h mod max_capacity q)) = h div max_capacity q * 2
                   then a\<lparr>pc := Constructing h v\<rparr> else a)"
  using assms by (auto simp: thread_step_def target_in_range pc_same)

lemma await_empty_spins:
  assumes "in_range q" "current a = Some x" "pc a = Await_empty h v"
    and "turn (slots q ! unat (h mod max_capacity q)) \<noteq> h div max_capacity q * 2"
  shows "exec (replicate n T1) (q, a, b) = Inr (q, a, b)"
  using assms by (induction n) (simp_all add: await_empty_step)


lemma await_empty_returns:
  assumes r: "in_range q" and x: "current a = Some x" and pc: "pc a = Await_empty h v"
    and m: "turn (slots q ! unat (h mod max_capacity q)) = h div max_capacity q * 2"
  shows "exec [T1, T1, T1] (q, a, b) =
           Inr (q\<lparr>slots := (slots q)[unat (h mod max_capacity q) :=
                       \<lparr>turn = h div max_capacity q * 2 + 1, storage = Some v\<rparr>]\<rparr>,
                returns a (accepted x), b)"
proof -
  let ?i = "unat (h mod max_capacity q)"
  let ?g = "h div max_capacity q"
  let ?q2 = "q\<lparr>slots := (slots q)[?i := construct (slots q ! ?i) v]\<rparr>"
  from r have len: "?i < length (slots q)" by (rule in_range_idx)
  from r have r2: "in_range ?q2" by simp
  have 1: "thread_step q a = Inr (q, a\<lparr>pc := Constructing h v\<rparr>)"
    using await_empty_step [OF r x pc] m by simp
  have 2: "thread_step q (a\<lparr>pc := Constructing h v\<rparr>) = Inr (?q2, a\<lparr>pc := Publishing h v\<rparr>)"
    by (simp add: thread_step_at [OF x] target_in_range [OF r])
  have 3: "thread_step ?q2 (a\<lparr>pc := Publishing h v\<rparr>) =
      Inr (q\<lparr>slots := (slots q)[?i := \<lparr>turn = ?g * 2 + 1, storage = Some v\<rparr>]\<rparr>,
           returns a (accepted x))"
  proof -
    have t: "target ?q2 h = Inr (?i, construct (slots q ! ?i) v, ?g)"
      using len by (simp add: target_in_range [OF r2])
    have s: "(construct (slots q ! ?i) v)\<lparr>turn := ?g * 2 + 1\<rparr> = \<lparr>turn = ?g * 2 + 1, storage = Some v\<rparr>"
      by (simp add: construct_def)
    show ?thesis
      by (simp add: thread_step_at [OF x] t s)
  qed
  show ?thesis
    by (simp add: 1 2 3)
qed


subsection \<open>Waiting for a pop\<close>


subsection \<open>The non-blocking calls\<close>





lemma queue_ok_frame [simp]:
  "queue_ok (q\<lparr>head := x\<rparr>) = queue_ok q"
  "queue_ok (q\<lparr>tail := x\<rparr>) = queue_ok q"
  by (simp_all add: queue_ok_def)



subsection \<open>One thread alone\<close>

lemma await_full_step:
  assumes "in_range q" "current a = Some x" "pc a = Await_full t"
  shows "thread_step q a =
           Inr (q, if turn (slots q ! unat (t mod max_capacity q)) = t div max_capacity q * 2 + 1
                   then a\<lparr>pc := Moving t\<rparr> else a)"
  using assms by (auto simp: thread_step_def target_in_range pc_same)

lemma await_full_spins:
  assumes "in_range q" "current a = Some x" "pc a = Await_full t"
    and "turn (slots q ! unat (t mod max_capacity q)) \<noteq> t div max_capacity q * 2 + 1"
  shows "exec (replicate n T1) (q, a, b) = Inr (q, a, b)"
  using assms by (induction n) (simp_all add: await_full_step)

lemma moving_returns:
  assumes r: "in_range q" and x: "current a = Some x"
    and st: "storage (slots q ! unat (t mod max_capacity q)) = Some y"
  shows "exec [T1, T1, T1] (q, a\<lparr>pc := Moving t\<rparr>, b) =
           Inr (q\<lparr>slots := (slots q)[unat (t mod max_capacity q) :=
                       \<lparr>turn = t div max_capacity q * 2 + 2, storage = None\<rparr>]\<rparr>,
                returns a (delivered x y), b)"
proof -
  let ?i = "unat (t mod max_capacity q)"
  let ?g = "t div max_capacity q"
  let ?q2 = "q\<lparr>slots := (slots q)[?i := (slots q ! ?i)\<lparr>storage := None\<rparr>]\<rparr>"
  from r have len: "?i < length (slots q)" by (rule in_range_idx)
  from r have r2: "in_range ?q2" by simp
  have 1: "thread_step q (a\<lparr>pc := Moving t\<rparr>) = Inr (q, a\<lparr>pc := Destroying t y\<rparr>)"
    by (simp add: thread_step_at [OF x] target_in_range [OF r] move_def st)
  have 2: "thread_step q (a\<lparr>pc := Destroying t y\<rparr>) = Inr (?q2, a\<lparr>pc := Releasing t y\<rparr>)"
    by (simp add: thread_step_at [OF x] target_in_range [OF r] destroy_def st)
  have 3: "thread_step ?q2 (a\<lparr>pc := Releasing t y\<rparr>) =
      Inr (q\<lparr>slots := (slots q)[?i := \<lparr>turn = ?g * 2 + 2, storage = None\<rparr>]\<rparr>,
           returns a (delivered x y))"
  proof -
    have t: "target ?q2 t = Inr (?i, (slots q ! ?i)\<lparr>storage := None\<rparr>, ?g)"
      using len by (simp add: target_in_range [OF r2])
    show ?thesis
      by (simp add: thread_step_at [OF x] t)
  qed
  show ?thesis
    by (simp add: 1 2 3)
qed

lemma map_sum_Inr: "map_sum f g s = Inr y \<longleftrightarrow> (\<exists>z. s = Inr z \<and> y = g z)"
  by (cases s) auto

lemma step_alone:
  assumes r: "in_range q" and x: "current a = Some x" and idle: "pc a = Idle"
  shows "step x q = Some (Inr (res, q')) \<Longrightarrow>
           \<exists>n. exec (replicate n T1) (q, a, b) = Inr (q', returns a res, b)"
    and "step x q = None \<Longrightarrow>
           \<exists>q1 k. \<forall>n. exec (replicate (Suc n) T1) (q, a, b) = Inr (q1, a\<lparr>pc := k\<rparr>, b)"
proof -
  note a = pc_same [OF idle, symmetric]
  note at = thread_step_at [OF x, of q Idle, folded a]
  have enq: "(emplace q v = Some (Inr q') \<longrightarrow>
               exec (replicate 4 T1) (q, a, b) = Inr (q', returns a (accepted x), b)) \<and>
             (emplace q v = None \<longrightarrow>
               (\<forall>n. exec (replicate (Suc n) T1) (q, a, b)
                     = Inr (q\<lparr>head := head q + 1\<rparr>, a\<lparr>pc := Await_empty (head q) v\<rparr>, b)))"
    if "x = Emplace v \<or> x = Push v" for v
  proof -
    let ?q1 = "q\<lparr>head := head q + 1\<rparr>"
    let ?a1 = "a\<lparr>pc := Await_empty (head q) v\<rparr>"
    from r have r1: "in_range ?q1" by simp
    from that have 1: "thread_step q a = Inr (?q1, ?a1)"
      by (auto simp: at enter_emplace_def Let_def target_in_range [OF r1])
    have x1: "current ?a1 = Some x" "pc ?a1 = Await_empty (head q) v"
      using x by simp_all
    show ?thesis
    proof (cases "turn (slots q ! unat (head q mod max_capacity q)) = head q div max_capacity q * 2")
      case True
      with await_empty_returns [OF r1 x1, of b] 1 show ?thesis
        by (simp add: emplace_eq [OF r] numeral_eq_Suc)
    next
      case False
      with await_empty_spins [OF r1 x1, of _ b] 1 show ?thesis
        by (simp add: emplace_eq [OF r])
    qed
  qed
  have tenq: "try_emplace q v = Inr (f, q') \<longrightarrow>
               (\<exists>n. exec (replicate n T1) (q, a, b) = Inr (q', returns a (Flag f), b))"
    if "x = TryEmplace v \<or> x = TryPush v" for v f
  proof -
    let ?h = "head q"
    let ?i = "unat (?h mod max_capacity q)"
    let ?g = "?h div max_capacity q"
    note t = thread_step_at [OF x]
    from that have 1: "thread_step q a = Inr (q, a\<lparr>pc := Probe_head ?h v\<rparr>)"
      by (auto simp: at enter_try_emplace_def)
    show ?thesis
    proof (cases "turn (slots q ! ?i) = ?g * 2")
      case True
      let ?q3 = "q\<lparr>head := ?h + 1\<rparr>"
      from r have r3: "in_range ?q3" by simp
      have 2: "thread_step q (a\<lparr>pc := Probe_head ?h v\<rparr>) = Inr (q, a\<lparr>pc := Claim_head ?h v\<rparr>)"
        using True by (simp add: t target_in_range [OF r])
      have 3: "thread_step q (a\<lparr>pc := Claim_head ?h v\<rparr>) = Inr (?q3, a\<lparr>pc := Constructing ?h v\<rparr>)"
        by (simp add: t)
      let ?q4 = "?q3\<lparr>slots := (slots q)[?i := construct (slots q ! ?i) v]\<rparr>"
      from r have r4: "in_range ?q4" by (simp add: in_range_def)
      have 4: "thread_step ?q3 (a\<lparr>pc := Constructing ?h v\<rparr>) = Inr (?q4, a\<lparr>pc := Publishing ?h v\<rparr>)"
        using target_in_range [OF r3, of ?h] by (simp add: t)
      have t4: "target ?q4 ?h = Inr (?i, construct (slots q ! ?i) v, ?g)"
        using target_in_range [OF r4, of ?h] in_range_idx [OF r, of ?h] by simp
      have s: "(construct (slots q ! ?i) v)\<lparr>turn := ?g * 2 + 1\<rparr> = \<lparr>turn = ?g * 2 + 1, storage = Some v\<rparr>"
        by (simp add: construct_def)
      have 5: "thread_step ?q4 (a\<lparr>pc := Publishing ?h v\<rparr>) =
          Inr (q\<lparr>head := ?h + 1, slots := (slots q)[?i := \<lparr>turn = ?g * 2 + 1, storage = Some v\<rparr>]\<rparr>,
               returns a (Flag True))"
        using that by (auto simp: t t4 s)
      have "exec (replicate 5 T1) (q, a, b) =
          Inr (q\<lparr>head := ?h + 1, slots := (slots q)[?i := \<lparr>turn = ?g * 2 + 1, storage = Some v\<rparr>]\<rparr>,
               returns a (Flag True), b)"
        by (simp add: numeral_eq_Suc 1 2 3 4 5)
      with True show ?thesis
        by (auto simp: try_emplace_eq [OF r])
    next
      case False
      then have 2: "thread_step q (a\<lparr>pc := Probe_head ?h v\<rparr>) = Inr (q, a\<lparr>pc := Reread_head ?h v\<rparr>)"
        by (auto simp: t target_in_range [OF r])
      have 3: "thread_step q (a\<lparr>pc := Reread_head ?h v\<rparr>) = Inr (q, returns a (Flag False))"
        by (simp add: t)
      have "exec (replicate 3 T1) (q, a, b) = Inr (q, returns a (Flag False), b)"
        by (simp add: numeral_eq_Suc 1 2 3)
      with False show ?thesis
        by (auto simp: try_emplace_eq [OF r])
    qed
  qed
  have deq: "(pop q = Some (Inr (y, q')) \<longrightarrow>
               exec (replicate 5 T1) (q, a, b) = Inr (q', returns a (Got y), b)) \<and>
             (pop q = None \<longrightarrow>
               (\<forall>n. exec (replicate (Suc n) T1) (q, a, b)
                     = Inr (q\<lparr>tail := tail q + 1\<rparr>, a\<lparr>pc := Await_full (tail q)\<rparr>, b)))"
    if "x = Pop" for y
  proof -
    let ?t = "tail q"
    let ?i = "unat (?t mod max_capacity q)"
    let ?q1 = "q\<lparr>tail := ?t + 1\<rparr>"
    let ?a1 = "a\<lparr>pc := Await_full ?t\<rparr>"
    from r have r1: "in_range ?q1" by simp
    from that have 1: "thread_step q a = Inr (?q1, ?a1)"
      by (auto simp: at enter_pop_def Let_def target_in_range [OF r1])
    have x1: "current ?a1 = Some x" "pc ?a1 = Await_full ?t"
      using x by simp_all
    show ?thesis
    proof (cases "turn (slots q ! ?i) = ?t div max_capacity q * 2 + 1")
      case True
      then have 2: "thread_step ?q1 ?a1 = Inr (?q1, a\<lparr>pc := Moving ?t\<rparr>)"
        using await_full_step [OF r1 x1] by simp
      show ?thesis
      proof (cases "storage (slots q ! ?i)")
        case None
        with True show ?thesis
          by (simp add: pop_eq [OF r])
      next
        case (Some z)
        then have "storage (slots ?q1 ! unat (?t mod max_capacity ?q1)) = Some z"
          by simp
        from moving_returns [OF r1 x this, of b] 1 2 True Some that show ?thesis
          by (auto simp: pop_eq [OF r] numeral_eq_Suc)
      qed
    next
      case False
      with await_full_spins [OF r1 x1, of _ b] 1 show ?thesis
        by (simp add: pop_eq [OF r])
    qed
  qed
  have tdeq: "try_pop q = Inr (y, q') \<longrightarrow>
               (\<exists>n. exec (replicate n T1) (q, a, b) = Inr (q', returns a (GotOpt y), b))"
    if "x = TryPop" for y
  proof -
    let ?t = "tail q"
    let ?i = "unat (?t mod max_capacity q)"
    note t = thread_step_at [OF x]
    from that have 1: "thread_step q a = Inr (q, a\<lparr>pc := Probe_tail ?t\<rparr>)"
      by (auto simp: at enter_try_pop_def)
    show ?thesis
    proof (cases "turn (slots q ! ?i) = ?t div max_capacity q * 2 + 1")
      case True
      let ?q1 = "q\<lparr>tail := ?t + 1\<rparr>"
      from r have r1: "in_range ?q1" by simp
      have 2: "thread_step q (a\<lparr>pc := Probe_tail ?t\<rparr>) = Inr (q, a\<lparr>pc := Claim_tail ?t\<rparr>)"
        using True by (simp add: t target_in_range [OF r])
      have 3: "thread_step q (a\<lparr>pc := Claim_tail ?t\<rparr>) = Inr (?q1, a\<lparr>pc := Moving ?t\<rparr>)"
        by (simp add: t)
      show ?thesis
      proof (cases "storage (slots q ! ?i)")
        case None
        with True show ?thesis
          by (simp add: try_pop_eq [OF r])
      next
        case (Some z)
        then have "storage (slots ?q1 ! unat (?t mod max_capacity ?q1)) = Some z"
          by simp
        from moving_returns [OF r1 x this, of b] that
        have "exec (replicate 6 T1) (q, a, b) =
            Inr (q\<lparr>tail := ?t + 1, slots := (slots q)[?i :=
                     \<lparr>turn = ?t div max_capacity q * 2 + 2, storage = None\<rparr>]\<rparr>,
                 returns a (GotOpt (Some z)), b)"
          by (simp add: numeral_eq_Suc 1 2 3)
        with True Some show ?thesis
          by (auto simp: try_pop_eq [OF r])
      qed
    next
      case False
      then have 2: "thread_step q (a\<lparr>pc := Probe_tail ?t\<rparr>) = Inr (q, a\<lparr>pc := Reread_tail ?t\<rparr>)"
        by (auto simp: t target_in_range [OF r])
      have 3: "thread_step q (a\<lparr>pc := Reread_tail ?t\<rparr>) = Inr (q, returns a (GotOpt None))"
        by (simp add: t)
      have "exec (replicate 3 T1) (q, a, b) = Inr (q, returns a (GotOpt None), b)"
        by (simp add: numeral_eq_Suc 1 2 3)
      with False show ?thesis
        by (auto simp: try_pop_eq [OF r])
    qed
  qed
  show "step x q = Some (Inr (res, q')) \<Longrightarrow>
           \<exists>n. exec (replicate n T1) (q, a, b) = Inr (q', returns a res, b)"
  proof (cases x)
    case (Emplace v)
    with enq [of v] show "step x q = Some (Inr (res, q')) \<Longrightarrow> ?thesis"
      by (auto simp: map_sum_Inr)
  next
    case (Push v)
    with enq [of v] show "step x q = Some (Inr (res, q')) \<Longrightarrow> ?thesis"
      by (auto simp: push_def map_sum_Inr)
  next
    case (TryEmplace v)
    with tenq [of v] show "step x q = Some (Inr (res, q')) \<Longrightarrow> ?thesis"
      by (auto simp: map_sum_Inr)
  next
    case (TryPush v)
    with tenq [of v] show "step x q = Some (Inr (res, q')) \<Longrightarrow> ?thesis"
      by (auto simp: try_push_def map_sum_Inr)
  next
    case Pop
    with deq show "step x q = Some (Inr (res, q')) \<Longrightarrow> ?thesis"
      by (auto simp: map_sum_Inr)
  next
    case TryPop
    with tdeq show "step x q = Some (Inr (res, q')) \<Longrightarrow> ?thesis"
      by (auto simp: map_sum_Inr)
  qed
  show "step x q = None \<Longrightarrow>
           \<exists>q1 k. \<forall>n. exec (replicate (Suc n) T1) (q, a, b) = Inr (q1, a\<lparr>pc := k\<rparr>, b)"
  proof (cases x)
    case (Emplace v)
    with enq [of v] show "step x q = None \<Longrightarrow> ?thesis"
      by auto
  next
    case (Push v)
    with enq [of v] show "step x q = None \<Longrightarrow> ?thesis"
      by (auto simp: push_def)
  next
    case Pop
    with deq show "step x q = None \<Longrightarrow> ?thesis"
      by auto
  qed simp_all
qed

lemma current_drop:
  "drop (length (results a)) (program a) = x # xs \<Longrightarrow> current a = Some x"
  by (metis current_def drop_all drop_eq_Nil2 hd_drop_conv_nth linorder_not_less list.distinct(1) list.sel(1))

lemma run_alone:
  assumes "fifo_inv q p" and "run ops q = Some (Inr (rs, q'))"
    and "pc a = Idle" and "drop (length (results a)) (program a) = ops"
  shows "\<exists>n. exec (replicate n T1) (q, a, b) = Inr (q', a\<lparr>results := results a @ rs\<rparr>, b)"
  using assms
proof (induction ops arbitrary: q p rs a)
  case Nil
  then have "exec (replicate 0 T1) (q, a, b) = Inr (q', a\<lparr>results := results a @ rs\<rparr>, b)"
    by simp
  then show ?case ..
next
  case (Cons x xs)
  from Cons.prems(2) obtain r q1 rs' where
    s: "step x q = Some (Inr (r, q1))" and t: "run xs q1 = Some (Inr (rs', q'))"
    and rs: "rs = r # rs'"
    by (rule run_Cons_Inr)
  from Cons.prems(4) have cur: "current a = Some x"
    by (rule current_drop)
  from step_alone(1) [OF fifo_inv_in_range [OF Cons.prems(1)] cur Cons.prems(3) s, of b]
  obtain n1 where n1: "exec (replicate n1 T1) (q, a, b) = Inr (q1, returns a r, b)" ..
  from step_fifo [OF Cons.prems(1) s] obtain p1 where p1: "fifo_inv q1 p1" by blast
  have "drop (length (results (returns a r))) (program (returns a r)) = xs"
    using Cons.prems(4) by (simp add: drop_Suc tl_drop [symmetric])
  from Cons.IH [OF p1 t _ this, of ] obtain n2 where
    n2: "exec (replicate n2 T1) (q1, returns a r, b)
          = Inr (q', (returns a r)\<lparr>results := results (returns a r) @ rs'\<rparr>, b)"
    by auto
  have "(returns a r)\<lparr>results := results (returns a r) @ rs'\<rparr> = a\<lparr>results := results a @ rs\<rparr>"
    using Cons.prems(3) by (cases a) (simp add: returns_def rs)
  with n1 n2 have "exec (replicate (n1 + n2) T1) (q, a, b) = Inr (q', a\<lparr>results := results a @ rs\<rparr>, b)"
    by (simp add: replicate_add exec_append)
  then show ?case ..
qed

lemma run_is_schedule:
  assumes "C \<noteq> 0" and "run ops (fresh_queue C) = Some (Inr (rs, q))"
  shows "\<exists>n. exec (replicate n T1) (fresh_queue C, spawn ops, b)
               = Inr (q, \<lparr>program = ops, pc = Idle, results = rs\<rparr>, b)"
proof -
  have "fifo_inv (fresh_queue C) []"
    using assms(1) by (rule fifo_inv_fresh)
  from run_alone [OF this assms(2), of "spawn ops" b] show ?thesis
    by (simp add: spawn_def)
qed

subsection \<open>A full ring\<close>











subsection \<open>A full queue and a pop\<close>




section \<open>Index arithmetic\<close>

text \<open>
  C6. For every ticket \<open>i\<close> and every capacity \<open>C > 0\<close> the selected slot is
  \<open>i mod C\<close> and the expected generation is \<open>i div C\<close>, both with the nominal
  capacity; the selected index is strictly less than \<open>C\<close>, so in an array of
  \<open>C + 1\<close> slots the last one, at index \<open>C\<close>, is never selected.
\<close>

theorem get_idx_nominal_capacity:
  "max_capacity q \<noteq> 0 \<Longrightarrow>
     get_idx q i = Inr (i mod max_capacity q) \<and>
     get_current_turn q i = Inr (i div max_capacity q) \<and>
     unat (i mod max_capacity q) = unat i mod unat (max_capacity q) \<and>
     unat (i div max_capacity q) = unat i div unat (max_capacity q) \<and>
     i mod max_capacity q < max_capacity q \<and>
     unat (i mod max_capacity q) \<noteq> unat (max_capacity q)"
proof -
  assume c: "max_capacity q \<noteq> 0"
  then have pos: "0 < unat (max_capacity q)"
    by (simp add: unat_gt_0)
  have lt: "unat (i mod max_capacity q) < unat (max_capacity q)"
    using pos by (simp add: unat_mod)
  then have "i mod max_capacity q < max_capacity q"
    by (simp add: word_less_nat_alt)
  with c lt show ?thesis
    by (simp add: get_idx_def get_current_turn_def unat_mod unat_div)
qed

theorem get_idx_nominal_capacity_witness:
  "get_idx \<lparr>max_capacity = 10, slots = ([] :: nat slot list), head = 0, tail = 0\<rparr> 25
     = Inr 5 \<and>
   get_current_turn \<lparr>max_capacity = 10, slots = ([] :: nat slot list), head = 0, tail = 0\<rparr> 25
     = Inr 2"
  using get_idx_nominal_capacity
    [of "\<lparr>max_capacity = 10, slots = ([] :: nat slot list), head = 0, tail = 0\<rparr>" 25]
  by simp

section \<open>Failure leaves no trace\<close>

text \<open>
  C9. Whenever \<^verbatim>\<open>try_emplace\<close> or \<^verbatim>\<open>try_push\<close> returns false, or \<^verbatim>\<open>try_pop\<close>
  returns an empty optional, the queue is exactly as it was before the call: head, tail,
  every turn and every slot's contents.
\<close>

theorem failure_is_atomic:
  "(try_emplace q v = Inr (False, q') \<longrightarrow> q' = q) \<and>
   (try_push q v = Inr (False, q') \<longrightarrow> q' = q) \<and>
   (try_pop q = Inr (None, q'') \<longrightarrow> q'' = q)"
  by (auto simp: try_push_def try_emplace_unfold try_pop_unfold Let_def
      split: if_splits option.splits)

theorem failure_is_atomic_witness:
  "try_emplace \<lparr>max_capacity = 1, slots = [\<lparr>turn = 1, storage = Some 7\<rparr>, new_slot],
                 head = 1, tail = 0\<rparr> (8 :: nat)
     = Inr (False, \<lparr>max_capacity = 1, slots = [\<lparr>turn = 1, storage = Some 7\<rparr>, new_slot],
                     head = 1, tail = 0\<rparr>) \<and>
   try_push \<lparr>max_capacity = 1, slots = [\<lparr>turn = 1, storage = Some 7\<rparr>, new_slot],
                 head = 1, tail = 0\<rparr> (8 :: nat)
     = Inr (False, \<lparr>max_capacity = 1, slots = [\<lparr>turn = 1, storage = Some 7\<rparr>, new_slot],
                     head = 1, tail = 0\<rparr>) \<and>
   try_pop (fresh_queue 1 :: nat queue) = Inr (None, fresh_queue 1)"
proof -
  let ?q = "\<lparr>max_capacity = 1, slots = [\<lparr>turn = 1, storage = Some (7 :: nat)\<rparr>, new_slot],
              head = 1, tail = 0\<rparr>"
  have "\<exists>q'. try_emplace ?q 8 = Inr (False, q')"
    by (simp add: try_emplace_unfold)
  then obtain q' where e: "try_emplace ?q 8 = Inr (False, q')" ..
  have "\<exists>q''. try_pop (fresh_queue 1 :: nat queue) = Inr (None, q'')"
    by (simp add: try_pop_unfold)
  then obtain q'' where p: "try_pop (fresh_queue 1 :: nat queue) = Inr (None, q'')" ..
  from failure_is_atomic [of ?q 8 q'] failure_is_atomic [of "fresh_queue 1" _ _ q''] e p
  show ?thesis
    by (simp add: try_push_def)
qed

section \<open>Capacity zero\<close>

text \<open>
  C10. The constructor accepts capacity 0 without validation, while every enqueue and
  dequeue path computes ticket mod capacity and ticket div capacity with the nominal
  capacity: on a queue of capacity zero each of them divides by zero, and for a capacity
  above zero none does; \<^verbatim>\<open>size\<close> and \<^verbatim>\<open>empty\<close> do not divide.
\<close>

theorem zero_capacity_division:
  "(alloc 1 = Some p \<and> p mod al = 0 \<longrightarrow>
      queue_ctor al alloc 0 = Inr (fresh_queue 0 :: 'a queue)) \<and>
   queue_size (fresh_queue 0 :: 'a queue) = 0 \<and>
   queue_empty (fresh_queue 0 :: 'a queue) \<and>
   (max_capacity q = 0 \<longrightarrow>
      get_idx q i = Inl DivisionByZero \<and>
      get_current_turn q i = Inl DivisionByZero \<and>
      emplace q v = Some (Inl DivisionByZero) \<and>
      push q v = Some (Inl DivisionByZero) \<and>
      try_emplace q v = Inl DivisionByZero \<and>
      try_push q v = Inl DivisionByZero \<and>
      pop q = Some (Inl DivisionByZero) \<and>
      try_pop q = Inl DivisionByZero) \<and>
   (max_capacity q \<noteq> 0 \<longrightarrow>
      get_idx q i \<noteq> Inl DivisionByZero \<and>
      get_current_turn q i \<noteq> Inl DivisionByZero \<and>
      emplace q v \<noteq> Some (Inl DivisionByZero) \<and>
      push q v \<noteq> Some (Inl DivisionByZero) \<and>
      try_emplace q v \<noteq> Inl DivisionByZero \<and>
      try_push q v \<noteq> Inl DivisionByZero \<and>
      pop q \<noteq> Some (Inl DivisionByZero) \<and>
      try_pop q \<noteq> Inl DivisionByZero)"
proof -
  have ctor: "queue_ctor al alloc 0 = Inr (fresh_queue 0 :: 'a queue)"
    if "alloc 1 = Some p" "p mod al = 0"
    using that by (intro queue_ctor_ok [where p = p]) simp_all
  have size: "queue_size (fresh_queue 0 :: 'a queue) = 0"
    by (simp add: queue_size_def)
  have zero: "get_idx q i = Inl DivisionByZero \<and>
      get_current_turn q i = Inl DivisionByZero \<and>
      emplace q v = Some (Inl DivisionByZero) \<and>
      push q v = Some (Inl DivisionByZero) \<and>
      try_emplace q v = Inl DivisionByZero \<and>
      try_push q v = Inl DivisionByZero \<and>
      pop q = Some (Inl DivisionByZero) \<and>
      try_pop q = Inl DivisionByZero" if "max_capacity q = 0"
    using that
    by (simp add: get_idx_def get_current_turn_def push_def try_push_def emplace_unfold
        try_emplace_unfold pop_unfold try_pop_unfold)
  have pos: "get_idx q i \<noteq> Inl DivisionByZero \<and>
      get_current_turn q i \<noteq> Inl DivisionByZero \<and>
      emplace q v \<noteq> Some (Inl DivisionByZero) \<and>
      push q v \<noteq> Some (Inl DivisionByZero) \<and>
      try_emplace q v \<noteq> Inl DivisionByZero \<and>
      try_push q v \<noteq> Inl DivisionByZero \<and>
      pop q \<noteq> Some (Inl DivisionByZero) \<and>
      try_pop q \<noteq> Inl DivisionByZero" if "max_capacity q \<noteq> 0"
    using that
    by (simp add: get_idx_def get_current_turn_def push_def try_push_def emplace_unfold
        try_emplace_unfold pop_unfold try_pop_unfold Let_def split: option.splits)
  from ctor size zero pos show ?thesis
    by (simp add: queue_empty_def)
qed

theorem zero_capacity_division_witness:
  "queue_ctor 64 (\<lambda>n. Some 4096) 0 = Inr (fresh_queue 0 :: nat queue) \<and>
   emplace (fresh_queue 0) (5 :: nat) = Some (Inl DivisionByZero) \<and>
   try_emplace (fresh_queue 0) (5 :: nat) = Inl DivisionByZero \<and>
   pop (fresh_queue 0 :: nat queue) = Some (Inl DivisionByZero) \<and>
   try_pop (fresh_queue 0 :: nat queue) = Inl DivisionByZero \<and>
   try_emplace (fresh_queue 1) (5 :: nat) \<noteq> Inl DivisionByZero"
  using zero_capacity_division [of "\<lambda>n. Some 4096" 4096 64 "fresh_queue 0 :: nat queue" 0 5]
    zero_capacity_division [of "\<lambda>n. Some 4096" 4096 64 "fresh_queue 1 :: nat queue" 0 5]
  by (simp del: One_nat_def) blast

section \<open>Turn parity and liveness\<close>

text \<open>
  C4. For every slot, between completed operations, the storage holds a live object
  exactly when the slot's turn is odd: the constructor establishes this invariant,
  every queue operation (\<^verbatim>\<open>emplace\<close>, \<^verbatim>\<open>push\<close>, \<^verbatim>\<open>try_emplace\<close>,
  \<^verbatim>\<open>try_push\<close>, \<^verbatim>\<open>pop\<close>, \<^verbatim>\<open>try_pop\<close>) preserves it, and the slot
  destructor destroys the contained value if and only if the turn is odd.
\<close>

theorem turn_parity_is_liveness:
  "(queue_ctor al alloc C = Inr q0 \<longrightarrow> queue_ok q0) \<and>
   (queue_ok q \<longrightarrow>
      (emplace q v = Some (Inr q1) \<longrightarrow> queue_ok q1) \<and>
      (push q v = Some (Inr q1) \<longrightarrow> queue_ok q1) \<and>
      (try_emplace q v = Inr (b, q2) \<longrightarrow> queue_ok q2) \<and>
      (try_push q v = Inr (b, q2) \<longrightarrow> queue_ok q2) \<and>
      (pop q = Some (Inr (x, q3)) \<longrightarrow> queue_ok q3) \<and>
      (try_pop q = Inr (r, q4) \<longrightarrow> queue_ok q4)) \<and>
   (odd (turn s) \<longrightarrow> slot_dtor s = destroy s) \<and>
   (even (turn s) \<longrightarrow> slot_dtor s = Inr s) \<and>
   (slot_dtor s = destroy s \<longleftrightarrow> odd (turn s)) \<and>
   (slot_ok s \<longrightarrow> slot_dtor s = Inr (s\<lparr>storage := None\<rparr>))"
proof -
  have ctor: "queue_ok q0" if "queue_ctor al alloc C = Inr q0"
    using queue_ctor_Inr(1) [OF that] by (simp add: queue_ok_fresh)
  have ne: "destroy s \<noteq> Inr s"
    by (cases s) (simp add: destroy_def split: option.splits)
  have d1: "slot_dtor s = destroy s" if "odd (turn s)"
    using that by (simp add: slot_dtor_odd)
  have d2: "slot_dtor s = Inr s" if "even (turn s)"
    using that by (simp add: slot_dtor_odd)
  have d3: "slot_dtor s = destroy s \<longleftrightarrow> odd (turn s)"
    using ne by (simp add: slot_dtor_odd)
  have d4: "slot_dtor s = Inr (s\<lparr>storage := None\<rparr>)" if "slot_ok s"
    using that by (cases s) (auto simp: slot_dtor_odd slot_ok_def destroy_def)
  have ops: "(emplace q v = Some (Inr q1) \<longrightarrow> queue_ok q1) \<and>
      (push q v = Some (Inr q1) \<longrightarrow> queue_ok q1) \<and>
      (try_emplace q v = Inr (b, q2) \<longrightarrow> queue_ok q2) \<and>
      (try_push q v = Inr (b, q2) \<longrightarrow> queue_ok q2) \<and>
      (pop q = Some (Inr (x, q3)) \<longrightarrow> queue_ok q3) \<and>
      (try_pop q = Inr (r, q4) \<longrightarrow> queue_ok q4)" if "queue_ok q"
    unfolding push_def try_push_def
    using emplace_queue_ok [OF that] try_emplace_queue_ok [OF that]
      pop_queue_ok [OF that] try_pop_queue_ok [OF that]
    by blast
  from ctor ops d1 d2 d3 d4 show ?thesis
    by blast
qed

theorem turn_parity_is_liveness_witness:
  "queue_ctor 64 (\<lambda>n. Some 4096) 2 = Inr (fresh_queue 2 :: nat queue) \<and>
   queue_ok (fresh_queue 2 :: nat queue) \<and>
   emplace (fresh_queue 2) (5 :: nat) = Some (Inr
     \<lparr>max_capacity = 2, slots = [\<lparr>turn = 1, storage = Some 5\<rparr>, new_slot, new_slot],
        head = 1, tail = 0\<rparr>) \<and>
   queue_ok \<lparr>max_capacity = 2, slots = [\<lparr>turn = 1, storage = Some (5 :: nat)\<rparr>, new_slot, new_slot],
        head = 1, tail = 0\<rparr> \<and>
   pop \<lparr>max_capacity = 2, slots = [\<lparr>turn = 1, storage = Some (5 :: nat)\<rparr>, new_slot, new_slot],
        head = 1, tail = 0\<rparr> = Some (Inr (5,
     \<lparr>max_capacity = 2, slots = [\<lparr>turn = 2, storage = None\<rparr>, new_slot, new_slot],
        head = 1, tail = 1\<rparr>)) \<and>
   queue_ok \<lparr>max_capacity = 2, slots = [\<lparr>turn = 2, storage = (None :: nat option)\<rparr>, new_slot, new_slot],
        head = 1, tail = 1\<rparr> \<and>
   slot_dtor \<lparr>turn = 1, storage = Some (5 :: nat)\<rparr> = Inr \<lparr>turn = 1, storage = None\<rparr> \<and>
   slot_dtor \<lparr>turn = 2, storage = (None :: nat option)\<rparr> = Inr \<lparr>turn = 2, storage = None\<rparr>"
proof -
  let ?q1 = "\<lparr>max_capacity = 2, slots = [\<lparr>turn = 1, storage = Some (5 :: nat)\<rparr>, new_slot, new_slot],
        head = 1, tail = 0\<rparr>"
  let ?q2 = "\<lparr>max_capacity = 2, slots = [\<lparr>turn = 2, storage = (None :: nat option)\<rparr>, new_slot, new_slot],
        head = 1, tail = 1\<rparr>"
  have c: "queue_ctor 64 (\<lambda>n. Some 4096) 2 = Inr (fresh_queue 2 :: nat queue)"
    by (simp add: queue_ctor_ok)
  have f: "(fresh_queue 2 :: nat queue) = \<lparr>max_capacity = 2, slots = [new_slot, new_slot, new_slot], head = 0, tail = 0\<rparr>"
    by (simp add: fresh_queue_def) (simp add: numeral_eq_Suc)
  have e: "emplace (fresh_queue 2) (5 :: nat) = Some (Inr ?q1)"
    by (simp add: f emplace_unfold)
  have p: "pop ?q1 = Some (Inr (5, ?q2))"
    by (simp add: pop_unfold)
  have s1: "slot_ok \<lparr>turn = 1, storage = Some (5 :: nat)\<rparr>"
    by (simp add: slot_ok_def)
  note t0 = turn_parity_is_liveness [of 64 "\<lambda>n. Some 4096" 2 "fresh_queue 2 :: nat queue"]
  note t1 = t0 [of "fresh_queue 2" 5 ?q1 _ _ _ _ _ _ "\<lparr>turn = 1, storage = Some (5 :: nat)\<rparr>"]
  note t2 = t0 [of ?q1 _ _ _ _ 5 ?q2 _ _ "\<lparr>turn = 2, storage = (None :: nat option)\<rparr>"]
  have s2: "even (turn \<lparr>turn = 2, storage = (None :: nat option)\<rparr>)"
    by simp
  have fok: "queue_ok (fresh_queue 2 :: nat queue)"
    using t1 c by blast
  have ok1: "queue_ok ?q1"
    using t1 fok e by blast
  have ok2: "queue_ok ?q2"
    using t2 ok1 p by blast
  have dt1: "slot_dtor \<lparr>turn = 1, storage = Some (5 :: nat)\<rparr> = Inr \<lparr>turn = 1, storage = None\<rparr>"
  proof -
    from t1 s1 have "slot_dtor \<lparr>turn = 1, storage = Some (5 :: nat)\<rparr>
        = Inr (\<lparr>turn = 1, storage = Some (5 :: nat)\<rparr>\<lparr>storage := None\<rparr>)"
      by blast
    then show ?thesis by simp
  qed
  have dt2: "slot_dtor \<lparr>turn = 2, storage = (None :: nat option)\<rparr> = Inr \<lparr>turn = 2, storage = None\<rparr>"
    using t2 s2 by blast
  from c fok e ok1 p ok2 dt1 dt2 show ?thesis
    by (intro conjI)
qed

section \<open>What a dequeue does\<close>

text \<open>
  C5. After a successful dequeue with ticket \<open>t\<close> (a \<^verbatim>\<open>pop\<close> that returns, or a
  \<^verbatim>\<open>try_pop\<close> that returns a value), the element has been moved out of slot
  \<open>t mod capacity\<close> and destroyed there, and that slot's turn is
  \<open>2 * (t div capacity) + 2\<close>; \<^verbatim>\<open>try_pop\<close> returns the element wrapped in an
  optional, and it returns the empty optional exactly when the target slot's turn differs
  from \<open>2 * (t div capacity) + 1\<close> with \<^verbatim>\<open>tail\<close> unchanged across the re-read (a stale
  \<^verbatim>\<open>current_tail\<close> makes the loop start over from the value re-read).
\<close>

theorem dequeue_effect:
  "(pop q = Some (Inr (x, q')) \<or> try_pop q = Inr (Some x, q') \<longrightarrow>
      unat (tail q mod max_capacity q) = unat (tail q) mod unat (max_capacity q) \<and>
      storage (slots q ! unat (tail q mod max_capacity q)) = Some x \<and>
      storage (slots q' ! unat (tail q mod max_capacity q)) = None \<and>
      turn (slots q' ! unat (tail q mod max_capacity q)) = 2 * (tail q div max_capacity q) + 2 \<and>
      tail q' = tail q + 1 \<and> head q' = head q \<and> max_capacity q' = max_capacity q \<and>
      slots q' = (slots q)[unat (tail q mod max_capacity q) := slots q' ! unat (tail q mod max_capacity q)]) \<and>
   (in_range q \<longrightarrow>
      ((\<exists>q''. try_pop q = Inr (None, q'')) \<longleftrightarrow>
         turn (slots q ! unat (tail q mod max_capacity q)) \<noteq> 2 * (tail q div max_capacity q) + 1) \<and>
      (ct \<noteq> tail q \<longrightarrow> try_pop_loop q ct = try_pop_loop q (tail q)))"
proof -
  have a: "unat (tail q mod max_capacity q) = unat (tail q) mod unat (max_capacity q) \<and>
      storage (slots q ! unat (tail q mod max_capacity q)) = Some x \<and>
      storage (slots q' ! unat (tail q mod max_capacity q)) = None \<and>
      turn (slots q' ! unat (tail q mod max_capacity q)) = 2 * (tail q div max_capacity q) + 2 \<and>
      tail q' = tail q + 1 \<and> head q' = head q \<and> max_capacity q' = max_capacity q \<and>
      slots q' = (slots q)[unat (tail q mod max_capacity q) := slots q' ! unat (tail q mod max_capacity q)]"
    if "pop q = Some (Inr (x, q')) \<or> try_pop q = Inr (Some x, q')"
    using dequeue_Inr(2,4,5) [OF that]
    by (simp add: unat_mod mult.commute)
  have b: "(\<exists>q''. try_pop q = Inr (None, q'')) \<longleftrightarrow>
         turn (slots q ! unat (tail q mod max_capacity q)) \<noteq> 2 * (tail q div max_capacity q) + 1"
    if "in_range q"
    using that
    by (simp add: try_pop_eq Let_def mult.commute split: option.splits)
  have c: "try_pop_loop q ct = try_pop_loop q (tail q)" if "in_range q" "ct \<noteq> tail q"
  proof -
    from that(1) have "max_capacity q \<noteq> 0" "unat (ct mod max_capacity q) < length (slots q)"
      using idx_lt [of q ct] by (simp_all add: in_range_def)
    then show ?thesis
      using that(2) by (intro try_pop_loop_stale) simp_all
  qed
  from a b c show ?thesis
    by blast
qed

theorem dequeue_effect_witness:
  "pop \<lparr>max_capacity = 2, slots = [\<lparr>turn = 2, storage = None\<rparr>, \<lparr>turn = 1, storage = Some (9 :: nat)\<rparr>, new_slot],
        head = 2, tail = 1\<rparr>
     = Some (Inr (9, \<lparr>max_capacity = 2, slots = [\<lparr>turn = 2, storage = None\<rparr>, \<lparr>turn = 2, storage = None\<rparr>, new_slot],
        head = 2, tail = 2\<rparr>)) \<and>
   try_pop \<lparr>max_capacity = 2, slots = [\<lparr>turn = 2, storage = None\<rparr>, \<lparr>turn = 1, storage = Some (9 :: nat)\<rparr>, new_slot],
        head = 2, tail = 1\<rparr>
     = Inr (Some 9, \<lparr>max_capacity = 2, slots = [\<lparr>turn = 2, storage = None\<rparr>, \<lparr>turn = 2, storage = None\<rparr>, new_slot],
        head = 2, tail = 2\<rparr>) \<and>
   try_pop \<lparr>max_capacity = 2, slots = [\<lparr>turn = 2, storage = None\<rparr>, \<lparr>turn = 2, storage = (None :: nat option)\<rparr>, new_slot],
        head = 2, tail = 2\<rparr>
     = Inr (None, \<lparr>max_capacity = 2, slots = [\<lparr>turn = 2, storage = None\<rparr>, \<lparr>turn = 2, storage = None\<rparr>, new_slot],
        head = 2, tail = 2\<rparr>) \<and>
   try_pop_loop \<lparr>max_capacity = 2, slots = [\<lparr>turn = 2, storage = None\<rparr>, \<lparr>turn = 2, storage = (None :: nat option)\<rparr>, new_slot],
        head = 2, tail = 2\<rparr> 0
     = Inr (None, \<lparr>max_capacity = 2, slots = [\<lparr>turn = 2, storage = None\<rparr>, \<lparr>turn = 2, storage = None\<rparr>, new_slot],
        head = 2, tail = 2\<rparr>)"
proof -
  let ?q = "\<lparr>max_capacity = 2, slots = [\<lparr>turn = 2, storage = None\<rparr>, \<lparr>turn = 1, storage = Some (9 :: nat)\<rparr>, new_slot],
        head = 2, tail = 1\<rparr>"
  let ?q' = "\<lparr>max_capacity = 2, slots = [\<lparr>turn = 2, storage = None\<rparr>, \<lparr>turn = 2, storage = (None :: nat option)\<rparr>, new_slot],
        head = 2, tail = 2\<rparr>"
  have r: "in_range ?q" "in_range ?q'"
    by (simp_all add: in_range_def)
  have "\<exists>x q'. pop ?q = Some (Inr (x, q'))"
    by (simp add: pop_unfold)
  then obtain x q1 where p: "pop ?q = Some (Inr (x, q1))" by blast
  have "\<exists>x q'. try_pop ?q = Inr (Some x, q')"
    by (simp add: try_pop_unfold)
  then obtain y q2 where t: "try_pop ?q = Inr (Some y, q2)" by blast
  have m: "turn (slots ?q' ! unat (tail ?q' mod max_capacity ?q')) \<noteq> 2 * (tail ?q' div max_capacity ?q') + 1"
    by simp
  have z: "(0 :: size_t) \<noteq> tail ?q'" by simp
  note d1 = dequeue_effect [of ?q x q1] and d2 = dequeue_effect [of ?q y q2]
    and d3 = dequeue_effect [of ?q' _ _ 0]
  have x: "x = 9" using d1 p by simp
  have y: "y = 9" using d2 t by simp
  have q1: "q1 = ?q'"
  proof -
    from d1 p have "slots q1 = (slots ?q)[1 := slots q1 ! 1]" "storage (slots q1 ! 1) = None"
      "turn (slots q1 ! 1) = 2" "tail q1 = 2" "head q1 = 2" "max_capacity q1 = 2"
      by simp_all
    then show ?thesis by (cases q1; cases "slots q1 ! 1") simp
  qed
  have q2: "q2 = ?q'"
  proof -
    from d2 t have "slots q2 = (slots ?q)[1 := slots q2 ! 1]" "storage (slots q2 ! 1) = None"
      "turn (slots q2 ! 1) = 2" "tail q2 = 2" "head q2 = 2" "max_capacity q2 = 2"
      by simp_all
    then show ?thesis by (cases q2; cases "slots q2 ! 1") simp
  qed
  from d3 r(2) m obtain q3 where e: "try_pop ?q' = Inr (None, q3)" by blast
  then have q3: "q3 = ?q'" by (simp add: try_pop_unfold)
  from d3 r(2) z have l: "try_pop_loop ?q' 0 = try_pop_loop ?q' (tail ?q')" by blast
  from p t e l x y q1 q2 q3 show ?thesis
    by (simp add: try_pop_def)
qed

section \<open>Blocking and non-blocking calls\<close>



section \<open>First in, first out\<close>



section \<open>The capacity bound\<close>



section \<open>Errors and the element type\<close>

text \<open>
  C8 says that the failure of an element operation is excluded by the compile-time
  constraints on \<^verbatim>\<open>T\<close>. For \<^verbatim>\<open>try_pop\<close> it is not. A type whose copy
  constructor may throw, with a non-throwing default constructor, copy assignment and
  destructor, satisfies \<^verbatim>\<open>regular_type\<close> and \<^verbatim>\<open>arg_regular_type\<close>, so
  \<^verbatim>\<open>queue<T>::try_pop\<close> compiles for it, while \<^verbatim>\<open>pop\<close> is rejected by its
  requires-clause; the construction \<^verbatim>\<open>T rv = slot.move()\<close> in \<^verbatim>\<open>try_pop\<close> may
  then throw. (The other parts of C8 are \<open>queue_ctor_throws_iff\<close> and \<open>run_no_fault\<close>.)
\<close>

theorem try_pop_unconstrained:
  "regular_type \<lparr>nothrow_default_constructible = True, nothrow_copy_constructible = False,
      nothrow_rvalue_constructible = False, nothrow_copy_assignable = True,
      nothrow_move_assignable = False, nothrow_destructible = True\<rparr> \<and>
   arg_regular_type \<lparr>nothrow_default_constructible = True, nothrow_copy_constructible = False,
      nothrow_rvalue_constructible = False, nothrow_copy_assignable = True,
      nothrow_move_assignable = False, nothrow_destructible = True\<rparr> \<and>
   try_pop_requires \<lparr>nothrow_default_constructible = True, nothrow_copy_constructible = False,
      nothrow_rvalue_constructible = False, nothrow_copy_assignable = True,
      nothrow_move_assignable = False, nothrow_destructible = True\<rparr> \<and>
   \<not> pop_requires \<lparr>nothrow_default_constructible = True, nothrow_copy_constructible = False,
      nothrow_rvalue_constructible = False, nothrow_copy_assignable = True,
      nothrow_move_assignable = False, nothrow_destructible = True\<rparr> \<and>
   \<not> dequeue_cannot_throw \<lparr>nothrow_default_constructible = True, nothrow_copy_constructible = False,
      nothrow_rvalue_constructible = False, nothrow_copy_assignable = True,
      nothrow_move_assignable = False, nothrow_destructible = True\<rparr>"
  by (simp add: regular_type_def arg_regular_type_def try_pop_requires_def pop_requires_def
      dequeue_cannot_throw_def)

end
